theory Spec2Isabelle
  imports Complex_Main "HOL-Library.Word"
begin

section \<open>Text, bytes and exceptions\<close>

text \<open>
  A Python \<open>str\<close> is a sequence of Unicode code points; a code point is a natural
  number here, so that the replacement character U+FFFD and the Unicode white space the
  reader strips are ordinary values.  \<open>bytes\<close> are lists of 8-bit words.
\<close>

type_synonym str = "nat list"
type_synonym bytes = "8 word list"

definition LF :: nat where "LF = 10"
definition CR :: nat where "CR = 13"

text \<open>
  The exceptions that occur in \<open>uart_reader.py\<close> and \<open>i2c_reader.py\<close>.
  \<open>CancelledError\<close> is the only one that is not caught by \<open>except Exception\<close>
  after the dedicated clause; \<open>Exception msg\<close> stands for any other error, with
  the text that \<open>str(exc)\<close> gives.
\<close>

datatype exn = CancelledError | QueueEmpty | QueueFull | TimeoutError | Exception str

fun str_exn :: "exn \<Rightarrow> str" where
  "str_exn (Exception msg) = msg"
| "str_exn _ = []"

section \<open>asyncio.Queue\<close>

text \<open>
  \<open>asyncio.Queue(maxsize)\<close>: a FIFO of items; a \<open>maxsize\<close> of zero or less means
  that the queue is unbounded (\<open>full()\<close> is then always false).
\<close>

record 'a queue =
  maxsize :: int
  items :: "'a list"

definition Queue :: "int \<Rightarrow> 'a queue" where
  "Queue n = \<lparr>maxsize = n, items = []\<rparr>"

definition qsize :: "'a queue \<Rightarrow> nat" where
  "qsize q = length (items q)"

definition q_empty :: "'a queue \<Rightarrow> bool" where
  "q_empty q = (items q = [])"

definition q_full :: "'a queue \<Rightarrow> bool" where
  "q_full q = (if maxsize q \<le> 0 then False else maxsize q \<le> int (qsize q))"

definition get_nowait :: "'a queue \<Rightarrow> exn + ('a \<times> 'a queue)" where
  "get_nowait q =
     (case items q of
        [] \<Rightarrow> Inl QueueEmpty
      | x # rest \<Rightarrow> Inr (x, q\<lparr>items := rest\<rparr>))"

definition put_nowait :: "'a queue \<Rightarrow> 'a \<Rightarrow> exn + 'a queue" where
  "put_nowait q x =
     (if q_full q then Inl QueueFull else Inr (q\<lparr>items := items q @ [x]\<rparr>))"

section \<open>The relay buffer: teeing a line to the agent queue\<close>

text \<open>
  Lines 130-139 of \<open>uart_reader.py\<close> (126-135 of \<open>i2c_reader.py\<close>):
  when the agent queue is full the oldest entry is taken out, then the line is put;
  both exceptions are swallowed.
\<close>

definition tee_agent :: "'a queue \<Rightarrow> 'a \<Rightarrow> 'a queue" where
  "tee_agent q line =
     (let q1 = (if q_full q
                then (case get_nowait q of Inl _ \<Rightarrow> q | Inr (_, q') \<Rightarrow> q')
                else q)
      in case put_nowait q1 line of Inl _ \<Rightarrow> q1 | Inr q2 \<Rightarrow> q2)"

text \<open>The loop of \<open>drain\<close> that empties the queue (lines 176-180).\<close>

function drain_loop :: "'a queue \<Rightarrow> 'a list \<Rightarrow> 'a list \<times> 'a queue" where
  "drain_loop q lines =
     (if \<not> q_empty q
      then (case get_nowait q of
              Inl _ \<Rightarrow> (lines, q)
            | Inr (x, q') \<Rightarrow> drain_loop q' (lines @ [x]))
      else (lines, q))"
  by pat_completeness auto
termination
  by (relation "measure (\<lambda>(q, lines). length (items q))")
     (auto simp: get_nowait_def split: list.splits)

section \<open>Decoding a chunk\<close>

text \<open>
  \<open>raw.decode("utf-8", errors="replace")\<close> (line 109).  The decoder of CPython reads
  one to four bytes per code point; an ill-formed or truncated sequence gives U+FFFD for
  its maximal well-formed prefix (at least one byte) and decoding goes on behind it.
  A sequence cut off by the end of the chunk gives one U+FFFD.
\<close>

definition REPL :: nat where "REPL = 0xFFFD"

definition is_cont :: "8 word \<Rightarrow> bool" where
  "is_cont b = (0x80 \<le> b \<and> b < 0xC0)"

fun utf8_decode :: "bytes \<Rightarrow> str" where
  "utf8_decode [] = []"
| "utf8_decode (b # bs) =
     (if b < 0x80 then unat b # utf8_decode bs
      else if b < 0xC2 then REPL # utf8_decode bs
      else if b < 0xE0 then
        (case bs of
           [] \<Rightarrow> [REPL]
         | b2 # r2 \<Rightarrow>
             if is_cont b2
             then ((unat b - 0xC0) * 64 + (unat b2 - 0x80)) # utf8_decode r2
             else REPL # utf8_decode bs)
      else if b < 0xF0 then
        (case bs of
           [] \<Rightarrow> [REPL]
         | b2 # r2 \<Rightarrow>
             if \<not> is_cont b2 \<or> (if b2 < 0xA0 then b = 0xE0 else b = 0xED)
             then REPL # utf8_decode bs
             else (case r2 of
                     [] \<Rightarrow> [REPL]
                   | b3 # r3 \<Rightarrow>
                       if is_cont b3
                       then ((unat b - 0xE0) * 4096 + (unat b2 - 0x80) * 64
                               + (unat b3 - 0x80)) # utf8_decode r3
                       else REPL # utf8_decode r2))
      else if b < 0xF5 then
        (case bs of
           [] \<Rightarrow> [REPL]
         | b2 # r2 \<Rightarrow>
             if \<not> is_cont b2 \<or> (if b2 < 0x90 then b = 0xF0 else b = 0xF4)
             then REPL # utf8_decode bs
             else (case r2 of
                     [] \<Rightarrow> [REPL]
                   | b3 # r3 \<Rightarrow>
                       if \<not> is_cont b3 then REPL # utf8_decode r2
                       else (case r3 of
                               [] \<Rightarrow> [REPL]
                             | b4 # r4 \<Rightarrow>
                                 if is_cont b4
                                 then ((unat b - 0xF0) * 262144 + (unat b2 - 0x80) * 4096
                                         + (unat b3 - 0x80) * 64 + (unat b4 - 0x80))
                                        # utf8_decode r4
                                 else REPL # utf8_decode r3)))
      else REPL # utf8_decode bs)"

section \<open>The framer\<close>

text \<open>\<open>s.partition(c)\<close> for a separator of one character.\<close>

definition partition_str :: "nat \<Rightarrow> str \<Rightarrow> str \<times> str \<times> str" where
  "partition_str c s =
     (if c \<in> set s
      then (takeWhile (\<lambda>x. x \<noteq> c) s, [c], tl (dropWhile (\<lambda>x. x \<noteq> c) s))
      else (s, [], []))"

text \<open>\<open>line.rstrip("\r\n")\<close>: every trailing CR and LF goes.\<close>

definition rstrip_crlf :: "str \<Rightarrow> str" where
  "rstrip_crlf s = rev (dropWhile (\<lambda>c. c = CR \<or> c = LF) (rev s))"

text \<open>\<open>str.isspace\<close> on one code point, and \<open>lstrip()\<close> without argument.\<close>

definition isspace :: "nat \<Rightarrow> bool" where
  "isspace c =
     ((0x09 \<le> c \<and> c \<le> 0x0D) \<or> (0x1C \<le> c \<and> c \<le> 0x20) \<or> c = 0x85 \<or> c = 0xA0
      \<or> c = 0x1680 \<or> (0x2000 \<le> c \<and> c \<le> 0x200A) \<or> c = 0x2028 \<or> c = 0x2029
      \<or> c = 0x202F \<or> c = 0x205F \<or> c = 0x3000)"

definition lstrip :: "str \<Rightarrow> str" where
  "lstrip s = dropWhile isspace s"

definition startswith :: "str \<Rightarrow> str \<Rightarrow> bool" where
  "startswith s p = (take (length p) s = p)"

text \<open>The prefix \<open>"data:"\<close>.\<close>

definition data_prefix :: str where
  "data_prefix = [100, 97, 116, 97, 58]"

text \<open>
  Lines 113-116: the accumulator is partitioned at the first LF; only when it holds no LF
  (the separator returned is empty) is it partitioned at the first CR.  The result is
  the line and the remainder that becomes the new accumulator.
\<close>

definition split_once :: "str \<Rightarrow> str \<times> str" where
  "split_once partial =
     (case partition_str LF partial of
        (line, sep, remainder) \<Rightarrow>
          if sep = []
          then (case partition_str CR partial of (line', sep', remainder') \<Rightarrow> (line', remainder'))
          else (line, remainder))"

text \<open>Lines 117-121: the trailing CR/LF and the \<open>"data:"\<close> prefix are removed.\<close>

definition clean_line :: "str \<Rightarrow> str" where
  "clean_line line0 =
     (let line = rstrip_crlf line0
      in if startswith line data_prefix then lstrip (drop 5 line) else line)"

text \<open>
  Lines 112-147, the loop that runs while the accumulator holds a terminator.  What the
  body does with a line that is not empty (lines 126-147) is the parameter \<open>emit\<close>, which
  acts on a state \<open>s\<close>; the result is the state and the accumulator left over.
\<close>

function split_loop :: "('s \<Rightarrow> str \<Rightarrow> 's) \<Rightarrow> 's \<Rightarrow> str \<Rightarrow> 's \<times> str" where
  "split_loop emit s partial =
     (if LF \<in> set partial \<or> CR \<in> set partial
      then (let line = clean_line (fst (split_once partial));
                remainder = snd (split_once partial)
            in if line = [] then split_loop emit s remainder
               else split_loop emit (emit s line) remainder)
      else (s, partial))"
  by pat_completeness auto
termination
proof -
  have drop_less: "length (dropWhile (\<lambda>x. x \<noteq> c) s) - Suc 0 < length s"
    if "c \<in> set s" for c :: nat and s :: "nat list"
  proof -
    from that have "0 < length s" by (cases s) auto
    moreover have "length (dropWhile (\<lambda>x. x \<noteq> c) s) \<le> length s"
      by (rule length_dropWhile_le)
    ultimately show ?thesis by arith
  qed
  have shorter: "length (snd (split_once partial)) < length partial"
    if "LF \<in> set partial \<or> CR \<in> set partial" for partial
    using that by (auto simp: split_once_def partition_str_def drop_less)
  show ?thesis
    by (relation "measure (\<lambda>(emit, s, partial). length partial)")
       (auto simp: shorter)
qed

text \<open>
  Lines 105-124 for one chunk \<open>raw\<close>: an empty chunk is skipped, any other chunk is
  decoded and appended to the accumulator, and the loop runs.
\<close>

definition feed_chunk :: "('s \<Rightarrow> str \<Rightarrow> 's) \<Rightarrow> 's \<times> str \<Rightarrow> bytes \<Rightarrow> 's \<times> str" where
  "feed_chunk emit sp raw =
     (if raw = [] then sp
      else split_loop emit (fst sp) (snd sp @ utf8_decode raw))"

text \<open>The lines that a sequence of chunks gives, starting with an empty accumulator (line 100).\<close>

definition collect :: "str list \<Rightarrow> str \<Rightarrow> str list" where
  "collect ls line = ls @ [line]"

definition framed_lines :: "bytes list \<Rightarrow> str list" where
  "framed_lines chunks = fst (foldl (feed_chunk collect) ([], []) chunks)"

section \<open>The reader\<close>

text \<open>
  The attributes of a \<open>UartReader\<close> (\<open>I2CReader\<close> is the same class, with
  \<open>_events_read\<close> for \<open>_lines_read\<close>), and the objects they refer to: the listener
  queues, which live on after \<open>remove_listener\<close>, and the tasks that
  \<open>asyncio.create_task\<close> has made.  A listener queue and a task are named by a
  number; \<open>next_queue\<close> and \<open>next_task\<close> are the first numbers not yet used.
  \<open>stops_waiting\<close> counts the calls of \<open>stop\<close> that are suspended in their
  \<open>wait_for\<close>.
\<close>

datatype status = Initialized | Starting | Connecting | Connected | Error | Stopped

datatype outcome = Returned | Raised exn

text \<open>
  Where a task made from \<open>_run\<close> is suspended: not yet run, in \<open>session.get\<close>,
  in \<open>iter_chunked\<close> (with the accumulator \<open>partial\<close>), in \<open>asyncio.sleep\<close>
  (with the seconds), or done.
\<close>

datatype pc = NotStarted | AwaitConnect | AwaitChunk str | AwaitSleep nat | Finished outcome

record task_state =
  pc :: pc
  must_cancel :: bool

record reader =
  url :: str
  agent_queue :: "str queue"
  ui_queues :: "nat set"
  task :: "nat option"
  stop_event :: bool
  status :: status
  last_error :: "str option"
  lines_read :: nat
  last_activity :: str
  queues :: "nat \<Rightarrow> str queue"
  next_queue :: nat
  tasks :: "nat \<Rightarrow> task_state"
  next_task :: nat
  stops_waiting :: nat

definition never :: str where
  "never = [110, 101, 118, 101, 114]"

definition new_task :: task_state where
  "new_task = \<lparr>pc = NotStarted, must_cancel = False\<rparr>"

text \<open>\<open>__init__\<close>; \<open>env_url\<close> is the value of the environment variable, if set.\<close>

definition UartReader :: "str option \<Rightarrow> str \<Rightarrow> int \<Rightarrow> reader" where
  "UartReader env_url url0 max_lines =
     \<lparr>url = (case env_url of Some u \<Rightarrow> u | None \<Rightarrow> url0),
      agent_queue = Queue max_lines,
      ui_queues = {},
      task = None,
      stop_event = False,
      status = Initialized,
      last_error = None,
      lines_read = 0,
      last_activity = never,
      queues = (\<lambda>_. Queue 0),
      next_queue = 0,
      tasks = (\<lambda>_. new_task),
      next_task = 0,
      stops_waiting = 0\<rparr>"

definition task_done :: "task_state \<Rightarrow> bool" where
  "task_done ts = (case pc ts of Finished _ \<Rightarrow> True | _ \<Rightarrow> False)"

text \<open>\<open>self._task is not None and not self._task.done()\<close>.\<close>

definition task_alive :: "reader \<Rightarrow> bool" where
  "task_alive r = (case task r of None \<Rightarrow> False | Some t \<Rightarrow> \<not> task_done (tasks r t))"

definition ensure_running :: "reader \<Rightarrow> reader" where
  "ensure_running r =
     (if task_alive r then r
      else r\<lparr>stop_event := False,
             task := Some (next_task r),
             tasks := (tasks r)(next_task r := new_task),
             next_task := Suc (next_task r)\<rparr>)"

text \<open>\<open>add_listener\<close> returns the new queue and registers it.\<close>

definition add_listener :: "reader \<Rightarrow> nat \<times> reader" where
  "add_listener r =
     (let q = next_queue r
      in (q, r\<lparr>queues := (queues r)(q := Queue 0),
                next_queue := Suc q,
                ui_queues := insert q (ui_queues r)\<rparr>))"

definition remove_listener :: "reader \<Rightarrow> nat \<Rightarrow> reader" where
  "remove_listener r q = r\<lparr>ui_queues := ui_queues r - {q}\<rparr>"

definition is_running :: "reader \<Rightarrow> bool" where
  "is_running r =
     (case task r of
        None \<Rightarrow> False
      | Some t \<Rightarrow> \<not> task_done (tasks r t) \<and> \<not> stop_event r)"

record diagnostics =
  d_status :: status
  d_url :: str
  d_last_error :: "str option"
  d_lines_read_total :: nat
  d_last_activity :: str
  d_agent_queue_size :: nat
  d_active_listeners :: nat
  d_task_running :: bool

definition get_diagnostics :: "reader \<Rightarrow> diagnostics" where
  "get_diagnostics r =
     \<lparr>d_status = status r,
      d_url = url r,
      d_last_error = last_error r,
      d_lines_read_total = lines_read r,
      d_last_activity = last_activity r,
      d_agent_queue_size = qsize (agent_queue r),
      d_active_listeners = card (ui_queues r),
      d_task_running = (case task r of None \<Rightarrow> False | Some t \<Rightarrow> \<not> task_done (tasks r t))\<rparr>"

text \<open>
  Lines 141-147: every registered queue gets the line once; a \<open>QueueFull\<close> of one queue
  is swallowed and leaves that queue as it was.  The order in which the set is walked
  does not show, since each turn of the loop touches its own queue only.
\<close>

definition tee_listeners :: "reader \<Rightarrow> str \<Rightarrow> nat \<Rightarrow> str queue" where
  "tee_listeners r line =
     (\<lambda>q. if q \<in> ui_queues r
          then (case put_nowait (queues r q) line of Inl _ \<Rightarrow> queues r q | Inr q' \<Rightarrow> q')
          else queues r q)"

text \<open>Lines 126-147: what the loop does with a line that is not empty.\<close>

definition tee_line :: "reader \<Rightarrow> str \<Rightarrow> reader" where
  "tee_line r line =
     (let r1 = r\<lparr>lines_read := lines_read r + 1\<rparr>;
          r2 = r1\<lparr>agent_queue := tee_agent (agent_queue r1) line\<rparr>
      in r2\<lparr>queues := tee_listeners r2 line\<rparr>)"

text \<open>
  \<open>await asyncio.wait_for(self._agent_queue.get(), timeout=wait_seconds)\<close> in
  \<open>drain\<close>: the caller is suspended, and \<open>arrived\<close> are the lines that the reader's
  task tees before the caller runs again.  When the queue is still empty then, the wait
  has run into its timeout.
\<close>

definition wait_for_get :: "reader \<Rightarrow> str list \<Rightarrow> exn + (str \<times> reader)" where
  "wait_for_get r arrived =
     (let r' = foldl tee_line r arrived
      in case get_nowait (agent_queue r') of
           Inl _ \<Rightarrow> Inl TimeoutError
         | Inr (x, q') \<Rightarrow> Inr (x, r'\<lparr>agent_queue := q'\<rparr>))"

definition drain :: "reader \<Rightarrow> real \<Rightarrow> str list \<Rightarrow> exn + (str list \<times> reader)" where
  "drain r wait_seconds arrived =
     (let first =
            (if q_empty (agent_queue r) \<and> wait_seconds > 0
             then (case wait_for_get r arrived of
                     Inl TimeoutError \<Rightarrow> Inr ([], r)
                   | Inl e \<Rightarrow> Inl e
                   | Inr (first_line, r') \<Rightarrow> Inr ([first_line], r'))
             else Inr ([], r))
      in case first of
           Inl e \<Rightarrow> Inl e
         | Inr (lines, r1) \<Rightarrow>
             (case drain_loop (agent_queue r1) lines of
                (lines', q') \<Rightarrow> Inr (lines', r1\<lparr>agent_queue := q'\<rparr>)))"

subsection \<open>The task that runs \<open>_run\<close>\<close>

text \<open>
  A task runs from one \<open>await\<close> to the next without interruption.  What wakes it is
  a \<open>resume\<close>: the awaited call is over (\<open>Resume\<close>: first run of the task, end of
  the sleep), the response has come with a good status (\<open>Response_ok\<close>), a chunk has
  come (with the time of day, as text), the stream has ended, or the awaited call raises.
\<close>

datatype resume = Resume | Response_ok | Chunk bytes str | End_of_stream | Raise exn

definition set_pc :: "reader \<Rightarrow> nat \<Rightarrow> pc \<Rightarrow> reader" where
  "set_pc r t p = r\<lparr>tasks := (tasks r)(t := (tasks r t)\<lparr>pc := p\<rparr>)\<rparr>"

text \<open>
  Lines 84-96: the test of the \<open>while\<close>; when the stop event is set \<open>_run\<close> returns,
  otherwise the status is \<open>connecting\<close> and the task waits for the response.
\<close>

definition loop_head :: "reader \<Rightarrow> nat \<Rightarrow> reader" where
  "loop_head r t =
     (if stop_event r then set_pc r t (Finished Returned)
      else set_pc (r\<lparr>status := Connecting\<rparr>) t AwaitConnect)"

text \<open>Lines 149-155: the two \<open>except\<close> clauses around the body of the loop.\<close>

definition handle_exn :: "reader \<Rightarrow> nat \<Rightarrow> exn \<Rightarrow> reader" where
  "handle_exn r t e =
     (case e of
        CancelledError \<Rightarrow> set_pc r t (Finished (Raised CancelledError))
      | _ \<Rightarrow> set_pc (r\<lparr>status := Error, last_error := Some (str_exn e)\<rparr>) t (AwaitSleep 1))"

text \<open>
  One run of task \<open>t\<close> from its \<open>await\<close> to the next.  A task that \<open>cancel()\<close> has
  marked gets \<open>CancelledError\<close> at its \<open>await\<close>, whatever has come.  A task that has
  not run yet and a task in \<open>asyncio.sleep\<close> are outside the \<open>try\<close>: a
  \<open>CancelledError\<close> ends them.  A resume that does not fit the \<open>await\<close> of the task
  does nothing.
\<close>

definition task_step :: "reader \<Rightarrow> nat \<Rightarrow> resume \<Rightarrow> reader" where
  "task_step r t inp0 =
     (if next_task r \<le> t then r
      else
        let inp = (if must_cancel (tasks r t) then Raise CancelledError else inp0)
        in case pc (tasks r t) of
             Finished _ \<Rightarrow> r
           | NotStarted \<Rightarrow>
               (case inp of
                  Resume \<Rightarrow> loop_head (r\<lparr>status := Starting\<rparr>) t
                | Raise CancelledError \<Rightarrow> set_pc r t (Finished (Raised CancelledError))
                | _ \<Rightarrow> r)
           | AwaitConnect \<Rightarrow>
               (case inp of
                  Response_ok \<Rightarrow>
                    set_pc (r\<lparr>status := Connected, last_error := None\<rparr>) t (AwaitChunk [])
                | Raise e \<Rightarrow> handle_exn r t e
                | _ \<Rightarrow> r)
           | AwaitChunk partial \<Rightarrow>
               (case inp of
                  Chunk raw now \<Rightarrow>
                    if stop_event r then loop_head r t
                    else if raw = [] then r
                    else (case split_loop tee_line (r\<lparr>last_activity := now\<rparr>)
                                 (partial @ utf8_decode raw) of
                            (r', partial') \<Rightarrow> set_pc r' t (AwaitChunk partial'))
                | End_of_stream \<Rightarrow> loop_head r t
                | Raise e \<Rightarrow> handle_exn r t e
                | _ \<Rightarrow> r)
           | AwaitSleep n \<Rightarrow>
               (case inp of
                  Resume \<Rightarrow> loop_head r t
                | Raise CancelledError \<Rightarrow> set_pc r t (Finished (Raised CancelledError))
                | _ \<Rightarrow> r))"

text \<open>
  \<open>stop\<close> up to its \<open>await\<close> (lines 186-191), and from there on (lines 192-194).
  Without a task there is no \<open>await\<close>, and \<open>stop\<close> is over at once.
  \<open>task.cancel()\<close> marks a task that is not done.
\<close>

definition cancel :: "reader \<Rightarrow> nat \<Rightarrow> reader" where
  "cancel r t =
     (if task_done (tasks r t) then r
      else r\<lparr>tasks := (tasks r)(t := (tasks r t)\<lparr>must_cancel := True\<rparr>)\<rparr>)"

definition stop_begin :: "reader \<Rightarrow> reader" where
  "stop_begin r =
     (let r1 = r\<lparr>stop_event := True\<rparr>
      in case task r1 of
           None \<Rightarrow> r1\<lparr>status := Stopped\<rparr>
         | Some t \<Rightarrow> (cancel r1 t)\<lparr>stops_waiting := Suc (stops_waiting r1)\<rparr>)"

definition stop_end :: "reader \<Rightarrow> reader" where
  "stop_end r =
     (if stops_waiting r = 0 then r
      else r\<lparr>status := Stopped, stops_waiting := stops_waiting r - 1\<rparr>)"

text \<open>The operations on a reader and the runs of its tasks, in any order.\<close>

datatype event =
    EnsureRunning
  | StopBegin
  | StopEnd
  | TaskStep nat resume
  | AddListener
  | RemoveListener nat
  | Drain real "str list"

fun step :: "reader \<Rightarrow> event \<Rightarrow> reader" where
  "step r EnsureRunning = ensure_running r"
| "step r StopBegin = stop_begin r"
| "step r StopEnd = stop_end r"
| "step r (TaskStep t inp) = task_step r t inp"
| "step r AddListener = snd (add_listener r)"
| "step r (RemoveListener q) = remove_listener r q"
| "step r (Drain wait_seconds arrived) =
     (case drain r wait_seconds arrived of Inl _ \<Rightarrow> r | Inr (_, r') \<Rightarrow> r')"

definition run :: "reader \<Rightarrow> event list \<Rightarrow> reader" where
  "run r es = foldl step r es"

section \<open>The split that the specification describes\<close>



section \<open>Tasks that are alive\<close>

text \<open>
  The tasks of the reader that are not done, and the property that every task but the
  one in \<open>_task\<close> is done.
\<close>

definition alive_tasks :: "reader \<Rightarrow> nat list" where
  "alive_tasks r = filter (\<lambda>t. \<not> task_done (tasks r t)) [0..<next_task r]"

definition one_task :: "reader \<Rightarrow> bool" where
  "one_task r =
     (case task r of
        None \<Rightarrow> next_task r = 0
      | Some t \<Rightarrow> t < next_task r \<and> (\<forall>t' < next_task r. t' \<noteq> t \<longrightarrow> task_done (tasks r t')))"

section \<open>Properties of the state of a reader\<close>

text \<open>
  \<open>only_cancelled\<close>: no task has ended with an exception other than
  \<open>CancelledError\<close>.  \<open>in_try\<close>: the task waits inside the \<open>try\<close> of the loop.
  \<open>quiet\<close>: every task is done or marked by \<open>cancel()\<close>.  \<open>ctl_inv\<close>: a task
  that is neither done nor marked is the task of the reader, the stop event is not set
  before it has run, and the status fits the place where it waits unless \<open>stop\<close> has
  set it to \<open>stopped\<close>.
\<close>

definition only_cancelled :: "reader \<Rightarrow> bool" where
  "only_cancelled r = (\<forall>t e. pc (tasks r t) = Finished (Raised e) \<longrightarrow> e = CancelledError)"

definition in_try :: "pc \<Rightarrow> bool" where
  "in_try p = (case p of AwaitConnect \<Rightarrow> True | AwaitChunk _ \<Rightarrow> True | _ \<Rightarrow> False)"

definition quiet :: "reader \<Rightarrow> bool" where
  "quiet r = (\<forall>t < next_task r. task_done (tasks r t) \<or> must_cancel (tasks r t))"

definition ctl_inv :: "reader \<Rightarrow> bool" where
  "ctl_inv r =
     (\<forall>t < next_task r. \<not> task_done (tasks r t) \<and> \<not> must_cancel (tasks r t) \<longrightarrow>
        task r = Some t
      \<and> (case pc (tasks r t) of
           NotStarted \<Rightarrow> \<not> stop_event r
         | AwaitConnect \<Rightarrow> status r = Connecting \<or> status r = Stopped
         | AwaitChunk _ \<Rightarrow> status r = Connected \<or> status r = Stopped
         | _ \<Rightarrow> True))"

section \<open>Listeners: the steps and what a listener is to observe\<close>

text \<open>
  The three steps of the listener registry: a listener is added, the listener \<open>q\<close> is
  removed, a line is pushed (teed).  \<open>observed q registered n ops\<close> follows the
  specification: it is the list of the lines pushed by \<open>ops\<close> while \<open>q\<close> is
  registered, in the order of the pushes, where \<open>registered\<close> says whether \<open>q\<close> is
  registered at the start and \<open>n\<close> is the number that the next new listener gets.
  \<open>listeners_ok\<close>: the registered queues have been made by \<open>add_listener\<close>, so they
  are unbounded.
\<close>

datatype listener_op = Add | Remove nat | Push str

fun listener_step :: "reader \<Rightarrow> listener_op \<Rightarrow> reader" where
  "listener_step r Add = snd (add_listener r)"
| "listener_step r (Remove q) = remove_listener r q"
| "listener_step r (Push line) = tee_line r line"

fun observed :: "nat \<Rightarrow> bool \<Rightarrow> nat \<Rightarrow> listener_op list \<Rightarrow> str list" where
  "observed q registered n [] = []"
| "observed q registered n (Add # ops) = observed q (registered \<or> n = q) (Suc n) ops"
| "observed q registered n (Remove g # ops) = observed q (registered \<and> g \<noteq> q) n ops"
| "observed q registered n (Push line # ops) =
     (if registered then [line] else []) @ observed q registered n ops"

definition listeners_ok :: "reader \<Rightarrow> bool" where
  "listeners_ok r = (\<forall>q \<in> ui_queues r. q < next_queue r \<and> maxsize (queues r q) \<le> 0)"


section \<open>Auxiliary facts about the queue and \<open>drain\<close>\<close>

declare drain_loop.simps [simp del]
declare split_loop.simps [simp del]

lemma drain_loop_all: "drain_loop q acc = (acc @ items q, q\<lparr>items := []\<rparr>)"
proof (induction "items q" arbitrary: q acc)
  case Nil
  then have "items q = []" by simp
  then show ?case by (subst drain_loop.simps) (cases q, simp add: q_empty_def)
next
  case (Cons x xs)
  from Cons(2) have [simp]: "items q = x # xs" by simp
  have "drain_loop (q\<lparr>items := xs\<rparr>) (acc @ [x]) = ((acc @ [x]) @ xs, q\<lparr>items := xs, items := []\<rparr>)"
    using Cons(1)[of "q\<lparr>items := xs\<rparr>" "acc @ [x]"] by simp
  then show ?case
    by (subst drain_loop.simps) (simp add: q_empty_def get_nowait_def)
qed

lemma tee_agent_maxsize: "maxsize (tee_agent q x) = maxsize q"
  by (simp add: tee_agent_def Let_def put_nowait_def get_nowait_def split: list.splits sum.splits)

lemma tee_agent_items:
  assumes "0 < maxsize q" "int (length (items q)) \<le> maxsize q"
  shows "items (tee_agent q x) = (if q_full q then tl (items q) @ [x] else items q @ [x])"
  using assms
  by (cases "items q") (auto simp: tee_agent_def Let_def put_nowait_def get_nowait_def q_full_def qsize_def)

lemma tee_agent_nonempty: "items (tee_agent q y) \<noteq> []"
  by (cases "items q") (auto simp: tee_agent_def Let_def put_nowait_def get_nowait_def q_full_def qsize_def split: list.splits)

lemma tee_agent_last:
  assumes "0 < maxsize q" "int (length (items q)) \<le> maxsize q"
  shows "items (tee_agent q x) = drop (length (items q @ [x]) - nat (maxsize q)) (items q @ [x])"
  using assms
  by (cases "items q") (auto simp: tee_agent_items q_full_def qsize_def nat_le_iff Suc_diff_le)

lemma last_n_snoc:
  assumes "0 < n"
  shows "drop (length (drop (length ys - n) ys @ [x]) - n) (drop (length ys - n) ys @ [x])
         = drop (length (ys @ [x]) - n) (ys @ [x])"
proof (cases "length ys < n")
  case True
  then show ?thesis by simp
next
  case False
  then have "length ys - (length ys - n) = n" by simp
  moreover have "Suc (length ys) - n = Suc (length ys - n)" using False by simp
  ultimately show ?thesis using assms False by (simp add: Suc_diff_le)
qed

lemma tee_agent_fold:
  assumes "0 < maxsize q" "int (length (items q)) \<le> maxsize q"
  shows "items (foldl tee_agent q xs) = drop (length (items q @ xs) - nat (maxsize q)) (items q @ xs)
       \<and> maxsize (foldl tee_agent q xs) = maxsize q"
proof (induction xs rule: rev_induct)
  case Nil
  then show ?case using assms by simp
next
  case (snoc x xs)
  let ?q = "foldl tee_agent q xs"
  let ?n = "nat (maxsize q)"
  from snoc have it: "items ?q = drop (length (items q @ xs) - ?n) (items q @ xs)"
    and m: "maxsize ?q = maxsize q" by simp_all
  have len: "int (length (items ?q)) \<le> maxsize ?q"
    using assms by (simp add: it m)
  have pos: "0 < maxsize ?q" using assms by (simp add: m)
  have "items (tee_agent ?q x) = drop (length (items ?q @ [x]) - ?n) (items ?q @ [x])"
    using tee_agent_last[OF pos len] by (simp add: m)
  also have "\<dots> = drop (length ((items q @ xs) @ [x]) - ?n) ((items q @ xs) @ [x])"
    unfolding it using assms(1) by (intro last_n_snoc) simp
  finally show ?case by (simp add: tee_agent_maxsize m)
qed

lemma agent_queue_tee_lines:
  "agent_queue (foldl tee_line r xs) = foldl tee_agent (agent_queue r) xs"
  by (induction xs arbitrary: r) (simp_all add: tee_line_def Let_def)

lemma wait_for_get_cases:
  "wait_for_get r arrived =
     (case items (agent_queue (foldl tee_line r arrived)) of
        [] \<Rightarrow> Inl TimeoutError
      | x # rest \<Rightarrow> Inr (x, (foldl tee_line r arrived)\<lparr>agent_queue := (agent_queue (foldl tee_line r arrived))\<lparr>items := rest\<rparr>\<rparr>))"
  by (simp add: wait_for_get_def get_nowait_def Let_def split: list.splits)

lemma drain_nonempty:
  assumes "\<not> q_empty (agent_queue r)"
  shows "drain r w arrived =
         Inr (items (agent_queue r), r\<lparr>agent_queue := (agent_queue r)\<lparr>items := []\<rparr>\<rparr>)"
  using assms by (simp add: drain_def drain_loop_all)

lemma drain_total: "\<exists>res. drain r w arrived = Inr res"
  by (cases "q_empty (agent_queue r) \<and> 0 < w")
     (auto simp: drain_def drain_loop_all wait_for_get_cases split: list.splits)

lemma drain_no_wait:
  assumes "\<not> 0 < w"
  shows "drain r w arrived =
         Inr (items (agent_queue r), r\<lparr>agent_queue := (agent_queue r)\<lparr>items := []\<rparr>\<rparr>)"
  using assms by (simp add: drain_def drain_loop_all)

lemma drain_wait:
  assumes "q_empty (agent_queue r)" "0 < w"
  shows "drain r w arrived =
         Inr (items (agent_queue (foldl tee_line r arrived)),
              (foldl tee_line r arrived)\<lparr>agent_queue := (agent_queue (foldl tee_line r arrived))\<lparr>items := []\<rparr>\<rparr>)"
proof (cases "items (agent_queue (foldl tee_line r arrived))")
  case Nil
  have "arrived = []"
  proof (rule ccontr)
    assume "arrived \<noteq> []"
    then obtain ys y where "arrived = ys @ [y]" by (metis rev_exhaust)
    then have "items (agent_queue (foldl tee_line r arrived)) = items (tee_agent (agent_queue (foldl tee_line r ys)) y)"
      by (simp add: tee_line_def Let_def)
    then show False using Nil tee_agent_nonempty by metis
  qed
  then show ?thesis using assms Nil
    by (cases r) (simp add: drain_def wait_for_get_cases drain_loop_all q_empty_def)
next
  case (Cons x rest)
  then show ?thesis using assms
    by (simp add: drain_def wait_for_get_cases drain_loop_all)
qed

section \<open>The relay buffer\<close>

text \<open>
  Claim C1.  Let the agent queue have capacity \<open>N\<close>, that is \<open>maxsize = N\<close> with
  \<open>N\<close> positive (for \<open>asyncio\<close> a \<open>maxsize\<close> of zero or less means no bound at all),
  and hold at most \<open>N\<close> lines, as every queue does.  Then, whatever lines are teed, the
  queue never holds more than \<open>N\<close> lines; teeing a line to a full queue removes exactly
  the oldest line and appends the new one; and after at least \<open>N\<close> lines have been teed,
  \<open>drain\<close> returns exactly the last \<open>N\<close> of them, in the order in which they were teed,
  and leaves the queue empty.
\<close>

theorem relay_buffer_keeps_last_N:
  assumes "0 < maxsize (agent_queue r)"
    and "int (qsize (agent_queue r)) \<le> maxsize (agent_queue r)"
  shows "(\<forall>k. int (qsize (agent_queue (foldl tee_line r (take k xs)))) \<le> maxsize (agent_queue r))
       \<and> (q_full (agent_queue r) \<longrightarrow>
            items (agent_queue (tee_line r x)) = tl (items (agent_queue r)) @ [x])
       \<and> (maxsize (agent_queue r) \<le> int (length xs) \<longrightarrow>
            (\<exists>r'. drain (foldl tee_line r xs) w arrived
                    = Inr (drop (length xs - nat (maxsize (agent_queue r))) xs, r')
                  \<and> q_empty (agent_queue r')))"
proof -
  let ?q = "agent_queue r"
  let ?n = "nat (maxsize ?q)"
  have len: "int (length (items ?q)) \<le> maxsize ?q"
    using assms(2) by (simp add: qsize_def)
  have fold_items: "items (agent_queue (foldl tee_line r ys))
                    = drop (length (items ?q @ ys) - ?n) (items ?q @ ys)" for ys
    using tee_agent_fold[OF assms(1) len, of ys] by (simp add: agent_queue_tee_lines)
  have bound: "\<forall>k. int (qsize (agent_queue (foldl tee_line r (take k xs)))) \<le> maxsize ?q"
  proof
    fix k
    have "length (items ?q @ take k xs) - (length (items ?q @ take k xs) - ?n) \<le> ?n"
      by arith
    then have "length (drop (length (items ?q @ take k xs) - ?n) (items ?q @ take k xs)) \<le> ?n"
      unfolding length_drop .
    then show "int (qsize (agent_queue (foldl tee_line r (take k xs)))) \<le> maxsize ?q"
      unfolding qsize_def fold_items using assms(1) by linarith
  qed
  have evict: "q_full ?q \<longrightarrow> items (agent_queue (tee_line r x)) = tl (items ?q) @ [x]"
    using tee_agent_items[OF assms(1) len, of x] by (simp add: tee_line_def Let_def)
  have last_n: "\<exists>r'. drain (foldl tee_line r xs) w arrived = Inr (drop (length xs - ?n) xs, r')
                     \<and> q_empty (agent_queue r')"
    if many: "maxsize ?q \<le> int (length xs)"
  proof -
    let ?r = "foldl tee_line r xs"
    from many have n_le: "?n \<le> length xs" by simp
    have "length (items ?q @ xs) - ?n = length (items ?q) + (length xs - ?n)"
      using n_le by simp
    then have it: "items (agent_queue ?r) = drop (length xs - ?n) xs"
      by (simp add: fold_items del: length_append)
    have "0 < ?n" using assms(1) by simp
    then have "drop (length xs - ?n) xs \<noteq> []" using n_le by simp
    then have ne: "\<not> q_empty (agent_queue ?r)" by (simp add: q_empty_def it)
    show ?thesis
      unfolding drain_nonempty[OF ne] it by (simp add: q_empty_def)
  qed
  from bound evict last_n show ?thesis by blast
qed

text \<open>
  A reader with capacity two that has been teed the lines \<open>a\<close> and \<open>b\<close> is full; teeing
  \<open>c\<close> evicts \<open>a\<close>, and after \<open>c\<close>, \<open>d\<close>, \<open>e\<close> the drain gives \<open>d\<close>, \<open>e\<close>.
\<close>

theorem relay_buffer_keeps_last_N_witness:
  "0 < maxsize (agent_queue (foldl tee_line (UartReader None [] 2) [[97], [98]]))
   \<and> q_full (agent_queue (foldl tee_line (UartReader None [] 2) [[97], [98]]))
   \<and> items (agent_queue (tee_line (foldl tee_line (UartReader None [] 2) [[97], [98]]) [99]))
       = [[98], [99]]
   \<and> (\<exists>r'. drain (foldl tee_line (foldl tee_line (UartReader None [] 2) [[97], [98]])
                     [[99], [100], [101]]) 0 []
             = Inr ([[100], [101]], r'))"
proof -
  define r where "r = foldl tee_line (UartReader None [] 2) [[97], [98]]"
  have q: "agent_queue r = \<lparr>maxsize = 2, items = [[97], [98]]\<rparr>"
    unfolding r_def agent_queue_tee_lines
    by (simp add: UartReader_def Queue_def tee_agent_def q_full_def
        qsize_def put_nowait_def get_nowait_def)
  have h1: "0 < maxsize (agent_queue r)" by (simp add: q)
  have h2: "int (qsize (agent_queue r)) \<le> maxsize (agent_queue r)"
    by (simp add: q qsize_def)
  have full: "q_full (agent_queue r)" by (simp add: q q_full_def qsize_def)
  from relay_buffer_keeps_last_N[OF h1 h2, of "[[99], [100], [101]]" "[99]" 0 "[]"] full
  have "items (agent_queue (tee_line r [99])) = [[98], [99]]"
    and "\<exists>r'. drain (foldl tee_line r [[99], [100], [101]]) 0 [] = Inr ([[100], [101]], r')"
    by (auto simp: q)
  with h1 full show ?thesis unfolding r_def by blast
qed

section \<open>Draining\<close>



section \<open>The framer, line by line\<close>

text \<open>
  Claim C6.  The line \<open>data:ping\<close> gives the event \<open>ping\<close>; the line \<open>data:\<close> gives
  no event; the empty line gives no event.  This is so for the chunk that holds the line
  and its LF, and for the processing of the line alone.
\<close>

theorem data_ping_lines:
  "framed_lines [map of_char ''data:ping'' @ [0x0A]] = [map of_char ''ping'']
   \<and> framed_lines [map of_char ''data:'' @ [0x0A]] = []
   \<and> framed_lines [[0x0A]] = []
   \<and> clean_line (map of_char ''data:ping'') = map of_char ''ping''
   \<and> clean_line (map of_char ''data:'') = []
   \<and> clean_line [] = []"
  by (simp add: framed_lines_def feed_chunk_def collect_def split_loop.simps split_once_def
      partition_str_def clean_line_def rstrip_crlf_def startswith_def data_prefix_def LF_def
      CR_def lstrip_def isspace_def)

section \<open>The framer and its chunks\<close>

lemma LF_neq_CR [simp]: "LF \<noteq> CR" "CR \<noteq> LF"
  by (simp_all add: LF_def CR_def)

lemma split_once_LF:
  assumes "LF \<in> set acc"
  shows "split_once acc = (takeWhile (\<lambda>c. c \<noteq> LF) acc, tl (dropWhile (\<lambda>c. c \<noteq> LF) acc))"
  using assms by (simp add: split_once_def partition_str_def)

lemma split_once_CR:
  assumes "LF \<notin> set acc" "CR \<in> set acc"
  shows "split_once acc = (takeWhile (\<lambda>c. c \<noteq> CR) acc, tl (dropWhile (\<lambda>c. c \<noteq> CR) acc))"
  using assms by (simp add: split_once_def partition_str_def)

lemma split_at_first:
  assumes "c \<in> set acc"
  shows "acc = takeWhile (\<lambda>x. x \<noteq> c) acc @ c # tl (dropWhile (\<lambda>x. x \<noteq> c) acc)"
proof -
  from assms have "dropWhile (\<lambda>x. x \<noteq> c) acc \<noteq> []" by simp
  moreover from this have "hd (dropWhile (\<lambda>x. x \<noteq> c) acc) = c"
    using hd_dropWhile[of "\<lambda>x. x \<noteq> c" acc] by simp
  ultimately have "dropWhile (\<lambda>x. x \<noteq> c) acc = c # tl (dropWhile (\<lambda>x. x \<noteq> c) acc)"
    by (cases "dropWhile (\<lambda>x. x \<noteq> c) acc") auto
  then show ?thesis using takeWhile_dropWhile_id[of "\<lambda>x. x \<noteq> c" acc] by metis
qed

lemma split_once_decomp:
  assumes "LF \<in> set acc \<or> CR \<in> set acc"
  shows "acc = fst (split_once acc) @ (if LF \<in> set acc then LF else CR) # snd (split_once acc)"
  using assms split_at_first[of LF acc] split_at_first[of CR acc]
  by (auto simp: split_once_LF split_once_CR)

lemma split_once_length:
  assumes "LF \<in> set acc \<or> CR \<in> set acc"
  shows "length (snd (split_once acc)) < length acc"
proof -
  have "length acc = length (fst (split_once acc) @ (if LF \<in> set acc then LF else CR) # snd (split_once acc))"
    using split_once_decomp[OF assms] by simp
  then show ?thesis by simp
qed

lemma rstrip_crlf_Nil [simp]: "rstrip_crlf [] = []"
  by (simp add: rstrip_crlf_def)

lemma clean_line_Nil [simp]: "clean_line [] = []"
  by (simp add: clean_line_def startswith_def data_prefix_def)



lemma last_suffix: "ys \<noteq> [] \<Longrightarrow> last (zs @ ys) = last ys"
  by simp

lemma rstrip_crlf_last:
  assumes "rstrip_crlf s \<noteq> []"
  shows "last (rstrip_crlf s) \<noteq> CR \<and> last (rstrip_crlf s) \<noteq> LF"
proof -
  let ?d = "dropWhile (\<lambda>c. c = CR \<or> c = LF) (rev s)"
  from assms have ne: "?d \<noteq> []" by (simp add: rstrip_crlf_def)
  then have "\<not> (hd ?d = CR \<or> hd ?d = LF)" by (rule hd_dropWhile)
  moreover have "last (rstrip_crlf s) = hd ?d"
    using ne by (simp add: rstrip_crlf_def last_rev)
  ultimately show ?thesis by simp
qed

lemma clean_line_last:
  assumes "clean_line s \<noteq> []"
  shows "last (clean_line s) \<noteq> CR \<and> last (clean_line s) \<noteq> LF"
proof (cases "startswith (rstrip_crlf s) data_prefix")
  case False
  with assms rstrip_crlf_last[of s] show ?thesis by (simp add: clean_line_def)
next
  case True
  let ?r = "rstrip_crlf s"
  let ?l = "lstrip (drop 5 ?r)"
  from True assms have l: "clean_line s = ?l" and ne: "?l \<noteq> []"
    by (simp_all add: clean_line_def)
  have "?r = (take 5 ?r @ takeWhile isspace (drop 5 ?r)) @ ?l"
    by (simp add: lstrip_def)
  then have "last ?r = last ?l" using ne last_suffix[OF ne] by metis
  moreover have "?r \<noteq> []" using ne by (auto simp: lstrip_def)
  ultimately show ?thesis using rstrip_crlf_last[of s] l by simp
qed

lemma split_loop_invariant:
  assumes "I s"
    and "\<And>s l. I s \<Longrightarrow> l \<noteq> [] \<Longrightarrow> last l \<noteq> CR \<and> last l \<noteq> LF \<Longrightarrow> I (emit s l)"
  shows "I (fst (split_loop emit s acc))"
  using assms
proof (induction emit s acc rule: split_loop.induct)
  case (1 emit s partial)
  show ?case
  proof (cases "LF \<in> set partial \<or> CR \<in> set partial")
    case False
    then show ?thesis using "1.prems"(1) by (subst split_loop.simps) simp
  next
    case True
    let ?line = "clean_line (fst (split_once partial))"
    let ?rest = "snd (split_once partial)"
    show ?thesis
    proof (cases "?line = []")
      case e: True
      have "split_loop emit s partial = split_loop emit s ?rest"
        using True e by (subst split_loop.simps) (simp add: Let_def)
      moreover have "I (fst (split_loop emit s ?rest))"
        by (rule "1.IH"(1)[OF True refl refl e "1.prems"(1)]) (rule "1.prems"(2))
      ultimately show ?thesis by simp
    next
      case ne: False
      have "split_loop emit s partial = split_loop emit (emit s ?line) ?rest"
        using True ne by (subst split_loop.simps) (simp add: Let_def)
      moreover have "I (emit s ?line)"
        using "1.prems"(1) ne clean_line_last[OF ne] by (rule "1.prems"(2))
      then have "I (fst (split_loop emit (emit s ?line) ?rest))"
        by (rule "1.IH"(2)[OF True refl refl ne]) (rule "1.prems"(2))
      ultimately show ?thesis by simp
    qed
  qed
qed

lemma split_loop_lines_clean:
  "\<forall>l \<in> set (fst (split_loop collect [] acc)). l \<noteq> [] \<and> last l \<noteq> CR \<and> last l \<noteq> LF"
  by (rule split_loop_invariant[where I = "\<lambda>ls. \<forall>l \<in> set ls. l \<noteq> [] \<and> last l \<noteq> CR \<and> last l \<noteq> LF"])
     (auto simp: collect_def)











text \<open>
  Claim C3 does not hold of the reader.  The three bytes C3 A9 0A are the character
  U+00E9 and an LF.  The reader gets them one byte at a time and decodes each chunk on
  its own, so it passes on a line of two U+FFFD; the same bytes in a single chunk give
  the line with U+00E9.
\<close>

theorem bytewise_decoding_breaks_characters:
  "framed_lines [[0xC3], [0xA9], [0x0A]] = [[0xFFFD, 0xFFFD]]
   \<and> framed_lines [[0xC3, 0xA9, 0x0A]] = [[0xE9]]
   \<and> utf8_decode [0xC3, 0xA9] = [0xE9]
   \<and> utf8_decode [0xC3] @ utf8_decode [0xA9] = [0xFFFD, 0xFFFD]"
  by (simp add: framed_lines_def feed_chunk_def collect_def split_loop.simps split_once_def
      partition_str_def clean_line_def rstrip_crlf_def startswith_def data_prefix_def LF_def
      CR_def lstrip_def isspace_def REPL_def is_cont_def)

section \<open>The life of the task\<close>

text \<open>What teeing and framing leave alone.\<close>

lemma tee_line_ctl:
  "tasks (tee_line r l) = tasks r" "next_task (tee_line r l) = next_task r"
  "task (tee_line r l) = task r" "stop_event (tee_line r l) = stop_event r"
  "status (tee_line r l) = status r" "last_error (tee_line r l) = last_error r"
  "stops_waiting (tee_line r l) = stops_waiting r"
  by (simp_all add: tee_line_def Let_def)

lemma tee_lines_ctl:
  "tasks (foldl tee_line r ls) = tasks r" "next_task (foldl tee_line r ls) = next_task r"
  "task (foldl tee_line r ls) = task r" "stop_event (foldl tee_line r ls) = stop_event r"
  "status (foldl tee_line r ls) = status r" "last_error (foldl tee_line r ls) = last_error r"
  "stops_waiting (foldl tee_line r ls) = stops_waiting r"
  by (induction ls arbitrary: r) (simp_all add: tee_line_ctl)

lemma split_loop_ctl:
  "tasks (fst (split_loop tee_line r acc)) = tasks r
   \<and> next_task (fst (split_loop tee_line r acc)) = next_task r
   \<and> task (fst (split_loop tee_line r acc)) = task r
   \<and> stop_event (fst (split_loop tee_line r acc)) = stop_event r
   \<and> status (fst (split_loop tee_line r acc)) = status r
   \<and> last_error (fst (split_loop tee_line r acc)) = last_error r
   \<and> stops_waiting (fst (split_loop tee_line r acc)) = stops_waiting r"
  by (rule split_loop_invariant[where I = "\<lambda>s. tasks s = tasks r \<and> next_task s = next_task r
        \<and> task s = task r \<and> stop_event s = stop_event r \<and> status s = status r
        \<and> last_error s = last_error r \<and> stops_waiting s = stops_waiting r"])
     (simp_all add: tee_line_ctl)

lemma drain_ctl:
  assumes "drain r w arrived = Inr (ls, r')"
  shows "tasks r' = tasks r \<and> next_task r' = next_task r \<and> task r' = task r
       \<and> stop_event r' = stop_event r \<and> status r' = status r
       \<and> last_error r' = last_error r \<and> stops_waiting r' = stops_waiting r"
proof (cases "q_empty (agent_queue r) \<and> 0 < w")
  case True
  then show ?thesis using assms drain_wait[of r w arrived] by (auto simp: tee_lines_ctl)
next
  case False
  then have "drain r w arrived = Inr (items (agent_queue r), r\<lparr>agent_queue := (agent_queue r)\<lparr>items := []\<rparr>\<rparr>)"
    using drain_nonempty[of r w arrived] drain_no_wait[of w r arrived] by blast
  with assms show ?thesis by auto
qed

lemma step_drain_ctl:
  "tasks (step r (Drain w a)) = tasks r \<and> next_task (step r (Drain w a)) = next_task r
   \<and> task (step r (Drain w a)) = task r \<and> stop_event (step r (Drain w a)) = stop_event r
   \<and> status (step r (Drain w a)) = status r \<and> last_error (step r (Drain w a)) = last_error r
   \<and> stops_waiting (step r (Drain w a)) = stops_waiting r"
proof (cases "drain r w a")
  case (Inl e)
  then show ?thesis by simp
next
  case (Inr res)
  obtain ls r' where "res = (ls, r')" by (cases res)
  with Inr drain_ctl[of r w a ls r'] show ?thesis by simp
qed

text \<open>One run of a task changes the state of that task only, and never revives a task.\<close>

lemma set_pc_simps [simp]:
  "tasks (set_pc r t p) t' = (if t' = t then (tasks r t)\<lparr>pc := p\<rparr> else tasks r t')"
  "next_task (set_pc r t p) = next_task r" "task (set_pc r t p) = task r"
  "stop_event (set_pc r t p) = stop_event r" "status (set_pc r t p) = status r"
  "last_error (set_pc r t p) = last_error r" "stops_waiting (set_pc r t p) = stops_waiting r"
  by (simp_all add: set_pc_def)

lemma task_step_chunk:
  assumes "split_loop tee_line r0 acc = (r', p')"
  shows "tasks r' = tasks r0" "next_task r' = next_task r0" "task r' = task r0"
    "stop_event r' = stop_event r0" "status r' = status r0" "last_error r' = last_error r0"
    "stops_waiting r' = stops_waiting r0"
  using split_loop_ctl[of r0 acc] assms by simp_all


lemmas task_step_splits = pc.splits resume.splits exn.splits prod.splits

lemma task_step_frame:
  "next_task (task_step r t inp) = next_task r \<and> task (task_step r t inp) = task r
   \<and> stop_event (task_step r t inp) = stop_event r
   \<and> stops_waiting (task_step r t inp) = stops_waiting r"
  by (auto simp: task_step_def Let_def loop_head_def handle_exn_def
      split: task_step_splits dest: task_step_chunk)

lemma task_step_other:
  "t' \<noteq> t \<Longrightarrow> tasks (task_step r t inp) t' = tasks r t'"
  by (auto simp: task_step_def Let_def loop_head_def handle_exn_def
      split: task_step_splits dest: task_step_chunk)

lemma task_step_done:
  "task_done (tasks r t') \<Longrightarrow> task_done (tasks (task_step r t inp) t')"
  by (cases "t' = t")
     (auto simp: task_step_def Let_def loop_head_def handle_exn_def task_done_def task_step_other
      split: task_step_splits dest: task_step_chunk)

lemma task_step_must_cancel:
  "must_cancel (tasks (task_step r t inp) t') = must_cancel (tasks r t')"
  by (auto simp: task_step_def Let_def loop_head_def handle_exn_def
      split: task_step_splits dest: task_step_chunk)

lemma task_step_not_stopped:
  "status (task_step r t inp) = Stopped \<Longrightarrow> status r = Stopped"
  by (auto simp: task_step_def Let_def loop_head_def handle_exn_def
      split: task_step_splits if_splits dest: task_step_chunk)

lemma task_step_cancelled:
  assumes "must_cancel (tasks r t)" "t < next_task r"
  shows "task_done (tasks (task_step r t inp) t) \<and> status (task_step r t inp) = status r
         \<and> last_error (task_step r t inp) = last_error r"
  using assms
  by (auto simp: task_step_def Let_def loop_head_def handle_exn_def task_done_def
      split: task_step_splits)

lemma task_step_idle:
  assumes "task_done (tasks r t) \<or> next_task r \<le> t"
  shows "task_step r t inp = r"
  using assms by (auto simp: task_step_def task_done_def split: pc.splits)


lemma cancel_simps [simp]:
  "next_task (cancel r t) = next_task r" "task (cancel r t) = task r"
  "stop_event (cancel r t) = stop_event r" "status (cancel r t) = status r"
  "last_error (cancel r t) = last_error r" "stops_waiting (cancel r t) = stops_waiting r"
  "pc (tasks (cancel r t) t') = pc (tasks r t')"
  "task_done (tasks (cancel r t) t') = task_done (tasks r t')"
  by (simp_all add: cancel_def task_done_def)

lemma one_task_step:
  assumes "one_task r"
  shows "one_task (step r e)"
proof (cases e)
  case EnsureRunning
  show ?thesis
  proof (cases "task_alive r")
    case True
    with assms EnsureRunning show ?thesis by (simp add: ensure_running_def)
  next
    case False
    have "task_done (tasks r t')" if "t' < next_task r" for t'
      using assms False that
      by (cases "task r") (auto simp: one_task_def task_alive_def)
    with False EnsureRunning show ?thesis
      by (auto simp: ensure_running_def one_task_def less_Suc_eq)
  qed
next
  case StopBegin
  with assms show ?thesis
    by (auto simp: stop_begin_def one_task_def Let_def split: option.splits)
next
  case StopEnd
  with assms show ?thesis by (auto simp: stop_end_def one_task_def split: option.splits)
next
  case (TaskStep t inp)
  with assms show ?thesis
    using task_step_frame[of r t inp] task_step_done[of r _ t inp]
    by (auto simp: one_task_def split: option.splits)
next
  case AddListener
  with assms show ?thesis by (auto simp: add_listener_def one_task_def Let_def split: option.splits)
next
  case (RemoveListener q)
  with assms show ?thesis by (auto simp: remove_listener_def one_task_def split: option.splits)
next
  case (Drain w a)
  with assms show ?thesis
    using step_drain_ctl[of r w a] by (auto simp: one_task_def split: option.splits)
qed

lemma one_task_run: "one_task r \<Longrightarrow> one_task (run r es)"
  unfolding run_def by (induction es arbitrary: r) (simp_all add: one_task_step)

lemma one_task_init: "one_task (UartReader env_url url0 max_lines)"
  by (simp add: one_task_def UartReader_def)

lemma one_task_alive:
  assumes "one_task r"
  shows "length (alive_tasks r) \<le> 1"
proof (cases "task r")
  case None
  with assms show ?thesis by (simp add: one_task_def alive_tasks_def)
next
  case (Some t)
  have "set (alive_tasks r) \<subseteq> {t}"
    using assms Some by (auto simp: one_task_def alive_tasks_def)
  moreover have "distinct (alive_tasks r)" by (simp add: alive_tasks_def)
  ultimately have "length (alive_tasks r) \<le> card {t}"
    by (metis card_mono distinct_card finite.emptyI finite.insertI)
  then show ?thesis by simp
qed

text \<open>
  Claim C7.  When the task of the reader is alive (made and not done),
  \<open>ensure_running\<close> changes nothing; when it is not, \<open>ensure_running\<close> makes
  exactly one new task, which becomes the task of the reader, and leaves all other tasks
  as they are; calling it twice is the same as calling it once; and after any sequence
  of operations and runs of tasks on a new reader, at most one of its tasks is alive.
\<close>

theorem ensure_running_idempotent:
  "(task_alive r \<longrightarrow> ensure_running r = r)
   \<and> (\<not> task_alive r \<longrightarrow>
        next_task (ensure_running r) = Suc (next_task r)
      \<and> task (ensure_running r) = Some (next_task r)
      \<and> tasks (ensure_running r) (next_task r) = new_task
      \<and> (\<forall>t. t \<noteq> next_task r \<longrightarrow> tasks (ensure_running r) t = tasks r t))
   \<and> ensure_running (ensure_running r) = ensure_running r
   \<and> length (alive_tasks (run (UartReader env_url url0 max_lines) es)) \<le> 1"
proof -
  have alive: "task_alive (ensure_running r)"
    by (auto simp: ensure_running_def task_alive_def task_done_def new_task_def)
  have twice: "ensure_running (ensure_running r) = ensure_running r"
    using alive by (subst ensure_running_def) simp
  have "length (alive_tasks (run (UartReader env_url url0 max_lines) es)) \<le> 1"
    by (intro one_task_alive one_task_run one_task_init)
  with twice show ?thesis by (auto simp: ensure_running_def)
qed


text \<open>A new reader, before and after \<open>ensure_running\<close>.\<close>

theorem ensure_running_idempotent_witness:
  "task_alive (ensure_running (UartReader None [] 1000))
   \<and> ensure_running (ensure_running (UartReader None [] 1000))
       = ensure_running (UartReader None [] 1000)
   \<and> \<not> task_alive (UartReader None [] 1000)
   \<and> next_task (ensure_running (UartReader None [] 1000)) = Suc (next_task (UartReader None [] 1000))
   \<and> task (ensure_running (UartReader None [] 1000)) = Some (next_task (UartReader None [] 1000))
   \<and> tasks (ensure_running (UartReader None [] 1000)) (next_task (UartReader None [] 1000)) = new_task
   \<and> tasks (ensure_running (UartReader None [] 1000)) 7 = tasks (UartReader None [] 1000) 7
   \<and> length (alive_tasks (run (UartReader None [] 1000)
        [EnsureRunning, EnsureRunning, TaskStep 0 Resume, EnsureRunning])) \<le> 1"
proof -
  define r0 where "r0 = UartReader None [] 1000"
  define r1 where "r1 = ensure_running r0"
  have n0: "next_task r0 = 0" by (simp add: r0_def UartReader_def)
  have dead: "\<not> task_alive r0" by (simp add: r0_def UartReader_def task_alive_def)
  have alive: "task_alive r1"
    by (simp add: r1_def r0_def UartReader_def ensure_running_def task_alive_def task_done_def
        new_task_def)
  from ensure_running_idempotent[of r1 None "[]" 1000 "[]"] alive
  have a: "ensure_running r1 = r1" by blast
  from ensure_running_idempotent[of r0 None "[]" 1000
      "[EnsureRunning, EnsureRunning, TaskStep 0 Resume, EnsureRunning]"] dead
  have b: "next_task (ensure_running r0) = Suc (next_task r0)"
    "task (ensure_running r0) = Some (next_task r0)"
    "tasks (ensure_running r0) (next_task r0) = new_task"
    "\<forall>t. t \<noteq> next_task r0 \<longrightarrow> tasks (ensure_running r0) t = tasks r0 t"
    "length (alive_tasks (run (UartReader None [] 1000)
        [EnsureRunning, EnsureRunning, TaskStep 0 Resume, EnsureRunning])) \<le> 1"
    by blast+
  from b(4) n0 have c: "tasks (ensure_running r0) 7 = tasks r0 7" by simp
  from alive a dead b(1,2,3,5) c show ?thesis unfolding r1_def r0_def by blast
qed

section \<open>\<open>is_running\<close> and the diagnostics\<close>

text \<open>
  Claim C10.  \<open>is_running\<close> is true exactly when there is a task, the task is not
  done and the stop event is not set.  It implies \<open>task_running\<close> of the diagnostics.
  As soon as \<open>stop\<close> has set the stop event, \<open>is_running\<close> is false; when the task
  was alive, \<open>task_running\<close> is still true at that moment, so that the converse
  implication fails.
\<close>

theorem is_running_vs_task_running:
  "is_running r = (\<exists>t. task r = Some t \<and> \<not> task_done (tasks r t) \<and> \<not> stop_event r)
   \<and> (is_running r \<longrightarrow> d_task_running (get_diagnostics r))
   \<and> \<not> is_running (stop_begin r)
   \<and> (task_alive r \<longrightarrow> d_task_running (get_diagnostics (stop_begin r)))
   \<and> (\<exists>r'. d_task_running (get_diagnostics r') \<and> \<not> is_running r')"
proof -
  have a: "is_running r = (\<exists>t. task r = Some t \<and> \<not> task_done (tasks r t) \<and> \<not> stop_event r)"
    by (auto simp: is_running_def split: option.splits)
  have b: "is_running r \<longrightarrow> d_task_running (get_diagnostics r)"
    by (auto simp: is_running_def get_diagnostics_def split: option.splits)
  have c: "\<not> is_running r'" if "stop_event r'" for r'
    using that by (auto simp: is_running_def split: option.splits)
  have ev: "stop_event (stop_begin r')" for r'
    by (auto simp: stop_begin_def Let_def split: option.splits)
  have d: "d_task_running (get_diagnostics (stop_begin r'))" if "task_alive r'" for r'
    using that
    by (auto simp: task_alive_def get_diagnostics_def stop_begin_def Let_def split: option.splits)
  let ?r = "stop_begin (ensure_running (UartReader None [] 1000))"
  have "task_alive (ensure_running (UartReader None [] 1000))"
    by (simp add: UartReader_def ensure_running_def task_alive_def task_done_def new_task_def)
  then have "d_task_running (get_diagnostics ?r) \<and> \<not> is_running ?r"
    using d c ev by blast
  with a b c d ev show ?thesis by blast
qed

text \<open>A reader that has been started, before and after \<open>stop\<close> has set its event.\<close>

theorem is_running_vs_task_running_witness:
  "is_running (ensure_running (UartReader None [] 1000))
   \<and> d_task_running (get_diagnostics (ensure_running (UartReader None [] 1000)))
   \<and> task_alive (ensure_running (UartReader None [] 1000))
   \<and> \<not> is_running (stop_begin (ensure_running (UartReader None [] 1000)))
   \<and> d_task_running (get_diagnostics (stop_begin (ensure_running (UartReader None [] 1000))))"
proof -
  define r1 where "r1 = ensure_running (UartReader None [] 1000)"
  have alive: "task_alive r1" and running: "is_running r1"
    by (simp_all add: r1_def UartReader_def ensure_running_def task_alive_def task_done_def
        new_task_def is_running_def)
  from is_running_vs_task_running[of r1] alive running
  show ?thesis unfolding r1_def by blast
qed

section \<open>Errors and cancellation in the loop\<close>

lemma step_ctl_other:
  "e = AddListener \<or> e = RemoveListener q \<or> e = Drain w a \<Longrightarrow>
   tasks (step r e) = tasks r \<and> next_task (step r e) = next_task r \<and> task (step r e) = task r
   \<and> stop_event (step r e) = stop_event r \<and> status (step r e) = status r
   \<and> last_error (step r e) = last_error r \<and> stops_waiting (step r e) = stops_waiting r"
  using step_drain_ctl[of r w a]
  by (auto simp: add_listener_def remove_listener_def Let_def)

lemma task_step_raised:
  assumes "pc (tasks (task_step r t inp) t') = Finished (Raised e)"
  shows "e = CancelledError \<or> pc (tasks r t') = Finished (Raised e)"
  using assms
  by (cases "t' = t")
     (auto simp: task_step_def Let_def loop_head_def handle_exn_def task_step_other
      split: task_step_splits if_splits dest: task_step_chunk)

lemma only_cancelled_step:
  assumes "only_cancelled r"
  shows "only_cancelled (step r e)"
proof (cases e)
  case (TaskStep t inp)
  with assms show ?thesis
    using task_step_raised[of r t inp] by (auto simp: only_cancelled_def)
next
  case EnsureRunning
  with assms show ?thesis
    by (auto simp: only_cancelled_def ensure_running_def new_task_def)
next
  case StopBegin
  with assms show ?thesis
    by (auto simp: only_cancelled_def stop_begin_def Let_def split: option.splits)
next
  case StopEnd
  with assms show ?thesis by (auto simp: only_cancelled_def stop_end_def)
next
  case AddListener
  with assms show ?thesis using step_ctl_other[of e _ _ _ r] by (simp add: only_cancelled_def)
next
  case (RemoveListener q)
  with assms show ?thesis using step_ctl_other[of e q _ _ r] by (simp add: only_cancelled_def)
next
  case (Drain w a)
  with assms show ?thesis using step_ctl_other[of e _ w a r] by (simp add: only_cancelled_def)
qed

lemma only_cancelled_run: "only_cancelled r \<Longrightarrow> only_cancelled (run r es)"
  unfolding run_def by (induction es arbitrary: r) (simp_all add: only_cancelled_step)

lemma only_cancelled_init: "only_cancelled (UartReader env_url url0 max_lines)"
  by (simp add: only_cancelled_def UartReader_def new_task_def)

text \<open>
  Claim C9.  Let task \<open>t\<close> be alive, wherever it waits: before its first run, in
  the \<open>try\<close> of the loop, or in the back-off sleep.  When the exception at its
  \<open>await\<close> is \<open>CancelledError\<close> (the task was marked by \<open>cancel()\<close>, or the
  awaited call raises it), the task ends with \<open>CancelledError\<close>, and status and last
  error stay as they are.  Any other exception \<open>e\<close>, which can only come inside the
  \<open>try\<close>, does not end the task: the status becomes \<open>error\<close>, the last error is
  the text of \<open>e\<close>, the task sleeps one second, the queues are as before and
  \<open>drain\<close> returns normally, and when the sleep is over and no stop was asked for the
  status is \<open>connecting\<close> again.  After any sequence of operations and runs of tasks
  on a new reader, no task has ended with an exception other than \<open>CancelledError\<close>.
\<close>

theorem errors_absorbed:
  assumes "t < next_task r" and "\<not> task_done (tasks r t)"
  shows "(must_cancel (tasks r t) \<or> inp = Raise CancelledError \<longrightarrow>
            pc (tasks (task_step r t inp) t) = Finished (Raised CancelledError)
          \<and> status (task_step r t inp) = status r
          \<and> last_error (task_step r t inp) = last_error r)
       \<and> (in_try (pc (tasks r t)) \<and> \<not> must_cancel (tasks r t) \<and> e \<noteq> CancelledError \<longrightarrow>
            status (task_step r t (Raise e)) = Error
          \<and> last_error (task_step r t (Raise e)) = Some (str_exn e)
          \<and> pc (tasks (task_step r t (Raise e)) t) = AwaitSleep 1
          \<and> \<not> task_done (tasks (task_step r t (Raise e)) t)
          \<and> agent_queue (task_step r t (Raise e)) = agent_queue r
          \<and> queues (task_step r t (Raise e)) = queues r
          \<and> ui_queues (task_step r t (Raise e)) = ui_queues r
          \<and> (\<exists>res. drain (task_step r t (Raise e)) w arrived = Inr res)
          \<and> (\<not> stop_event r \<longrightarrow>
                status (task_step (task_step r t (Raise e)) t Resume) = Connecting
              \<and> pc (tasks (task_step (task_step r t (Raise e)) t Resume) t) = AwaitConnect))
       \<and> (\<forall>t' x. pc (tasks (run (UartReader env_url url0 max_lines) es) t') = Finished (Raised x)
                  \<longrightarrow> x = CancelledError)
       \<and> (\<exists>res. drain r w arrived = Inr res)"
proof -
  have a: "pc (tasks (task_step r t inp) t) = Finished (Raised CancelledError)
          \<and> status (task_step r t inp) = status r
          \<and> last_error (task_step r t inp) = last_error r"
    if "must_cancel (tasks r t) \<or> inp = Raise CancelledError"
  proof (cases "pc (tasks r t)")
    case (Finished x)
    with assms(2) show ?thesis by (simp add: task_done_def)
  next
    case NotStarted
    with assms(1) that show ?thesis by (auto simp: task_step_def)
  next
    case AwaitConnect
    with assms(1) that show ?thesis by (auto simp: task_step_def handle_exn_def)
  next
    case (AwaitChunk p)
    with assms(1) that show ?thesis by (auto simp: task_step_def handle_exn_def)
  next
    case (AwaitSleep n)
    with assms(1) that show ?thesis by (auto simp: task_step_def)
  qed
  have b: "status (task_step r t (Raise e)) = Error
          \<and> last_error (task_step r t (Raise e)) = Some (str_exn e)
          \<and> pc (tasks (task_step r t (Raise e)) t) = AwaitSleep 1
          \<and> \<not> task_done (tasks (task_step r t (Raise e)) t)
          \<and> agent_queue (task_step r t (Raise e)) = agent_queue r
          \<and> queues (task_step r t (Raise e)) = queues r
          \<and> ui_queues (task_step r t (Raise e)) = ui_queues r
          \<and> (\<exists>res. drain (task_step r t (Raise e)) w arrived = Inr res)
          \<and> (\<not> stop_event r \<longrightarrow>
                status (task_step (task_step r t (Raise e)) t Resume) = Connecting
              \<and> pc (tasks (task_step (task_step r t (Raise e)) t Resume) t) = AwaitConnect)"
    if "in_try (pc (tasks r t))" "\<not> must_cancel (tasks r t)" "e \<noteq> CancelledError"
  proof -
    let ?r = "set_pc (r\<lparr>status := Error, last_error := Some (str_exn e)\<rparr>) t (AwaitSleep 1)"
    have r': "task_step r t (Raise e) = ?r"
      using assms(1) that
      by (cases e) (auto simp: task_step_def Let_def handle_exn_def in_try_def split: pc.splits)
    have "task_step ?r t Resume = set_pc (?r\<lparr>status := Connecting\<rparr>) t AwaitConnect"
      if "\<not> stop_event r"
      using assms(1) that \<open>\<not> must_cancel (tasks r t)\<close>
      by (simp add: task_step_def Let_def loop_head_def)
    moreover have "agent_queue ?r = agent_queue r \<and> queues ?r = queues r
                   \<and> ui_queues ?r = ui_queues r"
      by (simp add: set_pc_def)
    ultimately show ?thesis
      unfolding r' using drain_total[of ?r w arrived] by (simp add: task_done_def)
  qed
  have c: "\<forall>t' x. pc (tasks (run (UartReader env_url url0 max_lines) es) t') = Finished (Raised x)
                  \<longrightarrow> x = CancelledError"
    using only_cancelled_run[OF only_cancelled_init, of env_url url0 max_lines es]
    by (simp add: only_cancelled_def)
  from a b c drain_total[of r w arrived] show ?thesis by blast
qed


text \<open>
  A reader whose task waits for the response, where the awaited call raises
  \<open>CancelledError\<close> or an error with the text \<open>boom\<close>; a reader whose task sleeps
  after that error when \<open>stop\<close> is called; a reader that is stopped before its task
  has run.
\<close>

theorem errors_absorbed_witness:
  "0 < next_task (run (UartReader None [] 1000) [EnsureRunning, TaskStep 0 Resume])
   \<and> \<not> task_done (tasks (run (UartReader None [] 1000) [EnsureRunning, TaskStep 0 Resume]) 0)
   \<and> in_try (pc (tasks (run (UartReader None [] 1000) [EnsureRunning, TaskStep 0 Resume]) 0))
   \<and> \<not> must_cancel (tasks (run (UartReader None [] 1000) [EnsureRunning, TaskStep 0 Resume]) 0)
   \<and> \<not> stop_event (run (UartReader None [] 1000) [EnsureRunning, TaskStep 0 Resume])
   \<and> pc (tasks (task_step (run (UartReader None [] 1000) [EnsureRunning, TaskStep 0 Resume]) 0
                  (Raise CancelledError)) 0) = Finished (Raised CancelledError)
   \<and> status (task_step (run (UartReader None [] 1000) [EnsureRunning, TaskStep 0 Resume]) 0
                  (Raise (Exception [98, 111, 111, 109]))) = Error
   \<and> last_error (task_step (run (UartReader None [] 1000) [EnsureRunning, TaskStep 0 Resume]) 0
                  (Raise (Exception [98, 111, 111, 109]))) = Some [98, 111, 111, 109]
   \<and> pc (tasks (task_step (run (UartReader None [] 1000) [EnsureRunning, TaskStep 0 Resume]) 0
                  (Raise (Exception [98, 111, 111, 109]))) 0) = AwaitSleep 1
   \<and> status (task_step
              (task_step (run (UartReader None [] 1000) [EnsureRunning, TaskStep 0 Resume]) 0
                  (Raise (Exception [98, 111, 111, 109]))) 0 Resume) = Connecting
   \<and> pc (tasks (run (UartReader None [] 1000)
          [EnsureRunning, TaskStep 0 Resume, TaskStep 0 (Raise (Exception [98, 111, 111, 109])),
           StopBegin]) 0) = AwaitSleep 1
   \<and> must_cancel (tasks (run (UartReader None [] 1000)
          [EnsureRunning, TaskStep 0 Resume, TaskStep 0 (Raise (Exception [98, 111, 111, 109])),
           StopBegin]) 0)
   \<and> pc (tasks (task_step (run (UartReader None [] 1000)
          [EnsureRunning, TaskStep 0 Resume, TaskStep 0 (Raise (Exception [98, 111, 111, 109])),
           StopBegin]) 0 Resume) 0) = Finished (Raised CancelledError)
   \<and> pc (tasks (run (UartReader None [] 1000) [EnsureRunning, StopBegin]) 0) = NotStarted
   \<and> must_cancel (tasks (run (UartReader None [] 1000) [EnsureRunning, StopBegin]) 0)
   \<and> pc (tasks (task_step (run (UartReader None [] 1000) [EnsureRunning, StopBegin]) 0 Resume) 0)
       = Finished (Raised CancelledError)
   \<and> status (task_step (run (UartReader None [] 1000) [EnsureRunning, StopBegin]) 0 Resume)
       = Initialized"
proof -
  define r where "r = run (UartReader None [] 1000) [EnsureRunning, TaskStep 0 Resume]"
  define r2 where "r2 = run (UartReader None [] 1000)
          [EnsureRunning, TaskStep 0 Resume, TaskStep 0 (Raise (Exception [98, 111, 111, 109])),
           StopBegin]"
  define r3 where "r3 = run (UartReader None [] 1000) [EnsureRunning, StopBegin]"
  note defs = run_def UartReader_def ensure_running_def task_alive_def task_step_def
      new_task_def loop_head_def set_pc_def stop_begin_def cancel_def task_done_def
      handle_exn_def in_try_def
  have h1: "0 < next_task r" and h2: "\<not> task_done (tasks r 0)"
    and it: "in_try (pc (tasks r 0))"
    and nm: "\<not> must_cancel (tasks r 0)" and ns: "\<not> stop_event r"
    by (simp_all add: r_def defs)
  have g1: "0 < next_task r2" and g2: "\<not> task_done (tasks r2 0)"
    and gp: "pc (tasks r2 0) = AwaitSleep 1" and gm: "must_cancel (tasks r2 0)"
    by (simp_all add: r2_def defs)
  have k1: "0 < next_task r3" and k2: "\<not> task_done (tasks r3 0)"
    and kp: "pc (tasks r3 0) = NotStarted" and km: "must_cancel (tasks r3 0)"
    and ks: "status r3 = Initialized"
    by (simp_all add: r3_def defs)
  have ne: "Exception [98, 111, 111, 109] \<noteq> CancelledError" by simp
  from errors_absorbed[OF h1 h2, of "Raise CancelledError" "Exception [98, 111, 111, 109]"
      0 "[]" None "[]" 1000 "[]"] it nm ns ne
  have a: "pc (tasks (task_step r 0 (Raise CancelledError)) 0) = Finished (Raised CancelledError)"
    "status (task_step r 0 (Raise (Exception [98, 111, 111, 109]))) = Error"
    "last_error (task_step r 0 (Raise (Exception [98, 111, 111, 109])))
       = Some (str_exn (Exception [98, 111, 111, 109]))"
    "pc (tasks (task_step r 0 (Raise (Exception [98, 111, 111, 109]))) 0) = AwaitSleep 1"
    "status (task_step (task_step r 0 (Raise (Exception [98, 111, 111, 109]))) 0 Resume)
       = Connecting"
    by blast+
  from a(3) have a3: "last_error (task_step r 0 (Raise (Exception [98, 111, 111, 109])))
       = Some [98, 111, 111, 109]" by simp
  from errors_absorbed[OF g1 g2, of Resume CancelledError 0 "[]" None "[]" 1000 "[]"] gm
  have b: "pc (tasks (task_step r2 0 Resume) 0) = Finished (Raised CancelledError)"
    by blast
  from errors_absorbed[OF k1 k2, of Resume CancelledError 0 "[]" None "[]" 1000 "[]"] km ks
  have c: "pc (tasks (task_step r3 0 Resume) 0) = Finished (Raised CancelledError)"
    "status (task_step r3 0 Resume) = Initialized"
    by simp_all
  from h1 h2 it nm ns a(1,2) a3 a(4,5) gp gm b kp km c show ?thesis
    unfolding r_def r2_def r3_def by blast
qed

section \<open>The status: \<open>stopped\<close> and \<open>error\<close>\<close>


lemma stopped_only_by_stop:
  assumes "status (step r e) = Stopped"
  shows "status r = Stopped \<or> e = StopBegin \<or> e = StopEnd"
proof (cases e)
  case (TaskStep t inp)
  with assms show ?thesis using task_step_not_stopped[of r t inp] by simp
next
  case EnsureRunning
  with assms show ?thesis by (auto simp: ensure_running_def split: if_splits)
next
  case AddListener
  with assms show ?thesis using step_ctl_other[of e _ _ _ r] by simp
next
  case (RemoveListener q)
  with assms show ?thesis using step_ctl_other[of e q _ _ r] by simp
next
  case (Drain w a)
  with assms show ?thesis using step_ctl_other[of e _ w a r] by simp
qed simp_all

lemma task_step_quiet:
  assumes "task_done (tasks r t) \<or> must_cancel (tasks r t) \<or> next_task r \<le> t"
  shows "status (task_step r t inp) = status r"
proof (cases "task_done (tasks r t) \<or> next_task r \<le> t")
  case True
  then show ?thesis by (simp add: task_step_idle)
next
  case False
  with assms show ?thesis using task_step_cancelled[of r t inp] by auto
qed

lemma quiet_step:
  assumes "quiet r" "status r = Stopped" "e \<noteq> EnsureRunning"
  shows "quiet (step r e) \<and> status (step r e) = Stopped"
proof (cases e)
  case EnsureRunning
  with assms show ?thesis by simp
next
  case StopBegin
  with assms show ?thesis
    by (auto simp: quiet_def stop_begin_def Let_def cancel_def split: option.splits)
next
  case StopEnd
  with assms show ?thesis by (auto simp: quiet_def stop_end_def)
next
  case (TaskStep t inp)
  have "status (task_step r t inp) = status r"
    using assms(1) by (intro task_step_quiet) (auto simp: quiet_def not_le)
  moreover have "quiet (task_step r t inp)"
    using assms(1) task_step_frame[of r t inp] task_step_done[of r _ t inp]
      task_step_must_cancel[of r t inp]
    by (auto simp: quiet_def)
  ultimately show ?thesis using TaskStep assms(2) by simp
next
  case AddListener
  with assms show ?thesis using step_ctl_other[of e _ _ _ r] by (simp add: quiet_def)
next
  case (RemoveListener q)
  with assms show ?thesis using step_ctl_other[of e q _ _ r] by (simp add: quiet_def)
next
  case (Drain w a)
  with assms show ?thesis using step_ctl_other[of e _ w a r] by (simp add: quiet_def)
qed

lemma quiet_run:
  assumes "quiet r" "status r = Stopped" "EnsureRunning \<notin> set es"
  shows "quiet (run r es) \<and> status (run r es) = Stopped"
  using assms unfolding run_def
proof (induction es arbitrary: r)
  case Nil
  then show ?case by simp
next
  case (Cons e es)
  from Cons.prems have "quiet (step r e) \<and> status (step r e) = Stopped"
    by (intro quiet_step) auto
  with Cons show ?case by simp
qed

lemma task_step_self:
  assumes "t < next_task r" "\<not> must_cancel (tasks r t)"
    and "case pc (tasks r t) of
           NotStarted \<Rightarrow> \<not> stop_event r
         | AwaitConnect \<Rightarrow> status r = Connecting \<or> status r = Stopped
         | AwaitChunk _ \<Rightarrow> status r = Connected \<or> status r = Stopped
         | _ \<Rightarrow> True"
  shows "case pc (tasks (task_step r t inp) t) of
           NotStarted \<Rightarrow> \<not> stop_event (task_step r t inp)
         | AwaitConnect \<Rightarrow> status (task_step r t inp) = Connecting
                            \<or> status (task_step r t inp) = Stopped
         | AwaitChunk _ \<Rightarrow> status (task_step r t inp) = Connected
                            \<or> status (task_step r t inp) = Stopped
         | _ \<Rightarrow> True"
  using assms
  by (auto simp: task_step_def Let_def loop_head_def handle_exn_def
      split: task_step_splits if_splits dest: task_step_chunk)

lemma ctl_inv_ensure_running:
  assumes "ctl_inv r"
  shows "ctl_inv (ensure_running r)"
proof (cases "task_alive r")
  case True
  with assms show ?thesis by (simp add: ensure_running_def)
next
  case False
  have old: "task_done (tasks r t) \<or> must_cancel (tasks r t)" if "t < next_task r" for t
  proof (rule ccontr)
    assume "\<not> ?thesis"
    with assms that have "task r = Some t" "\<not> task_done (tasks r t)"
      by (auto simp: ctl_inv_def)
    with False show False by (simp add: task_alive_def)
  qed
  let ?r = "r\<lparr>stop_event := False, task := Some (next_task r),
             tasks := (tasks r)(next_task r := new_task), next_task := Suc (next_task r)\<rparr>"
  have "ctl_inv ?r"
    unfolding ctl_inv_def
  proof (intro allI impI)
    fix t
    assume lt: "t < next_task ?r"
      and live: "\<not> task_done (tasks ?r t) \<and> \<not> must_cancel (tasks ?r t)"
    have "t = next_task r"
    proof (rule ccontr)
      assume ne: "t \<noteq> next_task r"
      with lt have "t < next_task r" by simp
      from old[OF this] live ne show False by simp
    qed
    then show "task ?r = Some t \<and>
        (case pc (tasks ?r t) of
           NotStarted \<Rightarrow> \<not> stop_event ?r
         | AwaitConnect \<Rightarrow> status ?r = Connecting \<or> status ?r = Stopped
         | AwaitChunk _ \<Rightarrow> status ?r = Connected \<or> status ?r = Stopped
         | _ \<Rightarrow> True)"
      by (simp add: new_task_def)
  qed
  with False show ?thesis by (simp add: ensure_running_def)
qed


lemma ctl_inv_stop_begin:
  assumes "ctl_inv r"
  shows "ctl_inv (stop_begin r)"
  unfolding ctl_inv_def
proof (intro allI impI)
  fix t
  let ?r = "stop_begin r"
  assume lt: "t < next_task ?r"
    and live: "\<not> task_done (tasks ?r t) \<and> \<not> must_cancel (tasks ?r t)"
  have n: "next_task ?r = next_task r"
    by (simp add: stop_begin_def Let_def split: option.splits)
  have "False"
  proof (cases "task r")
    case None
    then have "tasks ?r = tasks r" by (simp add: stop_begin_def Let_def)
    with live lt n assms have "task r = Some t" by (auto simp: ctl_inv_def)
    with None show False by simp
  next
    case (Some c)
    then have tk: "tasks ?r = tasks (cancel (r\<lparr>stop_event := True\<rparr>) c)"
      by (simp add: stop_begin_def Let_def)
    have "\<not> task_done (tasks r t)" "\<not> must_cancel (tasks r t)"
      using live unfolding tk by (auto simp: cancel_def task_done_def split: if_splits)
    with lt n assms have "task r = Some t" by (auto simp: ctl_inv_def)
    with Some have "c = t" by simp
    with live show False unfolding tk by (auto simp: cancel_def split: if_splits)
  qed
  then show "task ?r = Some t \<and>
        (case pc (tasks ?r t) of
           NotStarted \<Rightarrow> \<not> stop_event ?r
         | AwaitConnect \<Rightarrow> status ?r = Connecting \<or> status ?r = Stopped
         | AwaitChunk _ \<Rightarrow> status ?r = Connected \<or> status ?r = Stopped
         | _ \<Rightarrow> True)" ..
qed

lemma ctl_inv_stop_end:
  assumes "ctl_inv r"
  shows "ctl_inv (stop_end r)"
proof (cases "stops_waiting r = 0")
  case True
  with assms show ?thesis by (simp add: stop_end_def)
next
  case False
  have "ctl_inv (r\<lparr>status := Stopped, stops_waiting := stops_waiting r - 1\<rparr>)"
    unfolding ctl_inv_def
  proof (intro allI impI)
    fix t
    let ?r = "r\<lparr>status := Stopped, stops_waiting := stops_waiting r - 1\<rparr>"
    assume "t < next_task ?r" "\<not> task_done (tasks ?r t) \<and> \<not> must_cancel (tasks ?r t)"
    with assms have "task r = Some t"
      and "case pc (tasks r t) of
           NotStarted \<Rightarrow> \<not> stop_event r
         | AwaitConnect \<Rightarrow> status r = Connecting \<or> status r = Stopped
         | AwaitChunk _ \<Rightarrow> status r = Connected \<or> status r = Stopped
         | _ \<Rightarrow> True"
      by (auto simp: ctl_inv_def)
    then show "task ?r = Some t \<and>
        (case pc (tasks ?r t) of
           NotStarted \<Rightarrow> \<not> stop_event ?r
         | AwaitConnect \<Rightarrow> status ?r = Connecting \<or> status ?r = Stopped
         | AwaitChunk _ \<Rightarrow> status ?r = Connected \<or> status ?r = Stopped
         | _ \<Rightarrow> True)"
      by (simp split: pc.splits)
  qed
  with False show ?thesis by (simp add: stop_end_def)
qed


lemma ctl_inv_task_step:
  assumes "ctl_inv r"
  shows "ctl_inv (task_step r t inp)"
  unfolding ctl_inv_def
proof (intro allI impI)
  fix t'
  let ?r = "task_step r t inp"
  assume lt: "t' < next_task ?r"
    and live: "\<not> task_done (tasks ?r t') \<and> \<not> must_cancel (tasks ?r t')"
  from lt have lt': "t' < next_task r" using task_step_frame[of r t inp] by simp
  from live have live': "\<not> task_done (tasks r t')" "\<not> must_cancel (tasks r t')"
    using task_step_done[of r t' t inp] task_step_must_cancel[of r t inp t'] by auto
  from assms lt' live' have cur: "task r = Some t'"
    and pcs: "case pc (tasks r t') of
           NotStarted \<Rightarrow> \<not> stop_event r
         | AwaitConnect \<Rightarrow> status r = Connecting \<or> status r = Stopped
         | AwaitChunk _ \<Rightarrow> status r = Connected \<or> status r = Stopped
         | _ \<Rightarrow> True"
    by (auto simp: ctl_inv_def)
  have frame: "task ?r = task r" "stop_event ?r = stop_event r"
    using task_step_frame[of r t inp] by simp_all
  show "task ?r = Some t' \<and>
        (case pc (tasks ?r t') of
           NotStarted \<Rightarrow> \<not> stop_event ?r
         | AwaitConnect \<Rightarrow> status ?r = Connecting \<or> status ?r = Stopped
         | AwaitChunk _ \<Rightarrow> status ?r = Connected \<or> status ?r = Stopped
         | _ \<Rightarrow> True)"
  proof (cases "t' = t")
    case True
    from lt' live'(2) pcs have "t < next_task r" "\<not> must_cancel (tasks r t)"
      and "case pc (tasks r t) of
           NotStarted \<Rightarrow> \<not> stop_event r
         | AwaitConnect \<Rightarrow> status r = Connecting \<or> status r = Stopped
         | AwaitChunk _ \<Rightarrow> status r = Connected \<or> status r = Stopped
         | _ \<Rightarrow> True"
      unfolding True by simp_all
    from task_step_self[OF this, of inp] cur frame(1) show ?thesis
      unfolding True by simp
  next
    case False
    have "task_done (tasks r t) \<or> must_cancel (tasks r t) \<or> next_task r \<le> t"
    proof (rule ccontr)
      assume "\<not> ?thesis"
      then have "task r = Some t" using assms by (auto simp: ctl_inv_def)
      with cur False show False by simp
    qed
    then have "status ?r = status r" by (rule task_step_quiet)
    with False pcs cur frame show ?thesis
      by (simp add: task_step_other split: pc.splits)
  qed
qed

lemma ctl_inv_same:
  assumes "tasks r' = tasks r \<and> next_task r' = next_task r \<and> task r' = task r
     \<and> stop_event r' = stop_event r \<and> status r' = status r
     \<and> last_error r' = last_error r \<and> stops_waiting r' = stops_waiting r"
  shows "ctl_inv r' = ctl_inv r"
  using assms by (simp add: ctl_inv_def cong: pc.case_cong)

lemma ctl_inv_step:
  assumes "ctl_inv r"
  shows "ctl_inv (step r e)"
proof (cases e)
  case EnsureRunning
  with assms show ?thesis by (simp add: ctl_inv_ensure_running)
next
  case StopBegin
  with assms show ?thesis by (simp add: ctl_inv_stop_begin)
next
  case StopEnd
  with assms show ?thesis by (simp add: ctl_inv_stop_end)
next
  case (TaskStep t inp)
  with assms show ?thesis by (simp add: ctl_inv_task_step)
next
  case AddListener
  with assms show ?thesis using ctl_inv_same[OF step_ctl_other[of e _ _ _ r]] by simp
next
  case (RemoveListener q)
  with assms show ?thesis using ctl_inv_same[OF step_ctl_other[of e q _ _ r]] by simp
next
  case (Drain w a)
  with assms show ?thesis using ctl_inv_same[OF step_ctl_other[of e _ w a r]] by simp
qed

lemma ctl_inv_run: "ctl_inv r \<Longrightarrow> ctl_inv (run r es)"
  unfolding run_def by (induction es arbitrary: r) (simp_all add: ctl_inv_step)

lemma ctl_inv_init: "ctl_inv (UartReader env_url url0 max_lines)"
  by (simp add: ctl_inv_def UartReader_def)


lemma error_next_task:
  assumes "ctl_inv r" "status r = Error"
  shows "status (task_step r t inp) = Error \<or> status (task_step r t inp) = Connecting"
proof (cases "task_done (tasks r t) \<or> must_cancel (tasks r t) \<or> next_task r \<le> t")
  case True
  then have "status (task_step r t inp) = status r" by (rule task_step_quiet)
  with assms show ?thesis by simp
next
  case False
  with assms have pcs: "case pc (tasks r t) of
         NotStarted \<Rightarrow> \<not> stop_event r
       | AwaitConnect \<Rightarrow> status r = Connecting \<or> status r = Stopped
       | AwaitChunk _ \<Rightarrow> status r = Connected \<or> status r = Stopped
       | _ \<Rightarrow> True"
    by (auto simp: ctl_inv_def)
  from False have lt: "\<not> next_task r \<le> t" and nm: "\<not> must_cancel (tasks r t)" by simp_all
  show ?thesis
  proof (cases "pc (tasks r t)")
    case NotStarted
    with pcs lt nm assms(2) show ?thesis
      by (auto simp: task_step_def loop_head_def split: resume.splits exn.splits)
  next
    case AwaitConnect
    with pcs assms(2) show ?thesis by simp
  next
    case (AwaitChunk p)
    with pcs assms(2) show ?thesis by simp
  next
    case (AwaitSleep n)
    with lt nm assms(2) show ?thesis
      by (auto simp: task_step_def loop_head_def split: resume.splits exn.splits)
  next
    case (Finished x)
    with False show ?thesis by (simp add: task_done_def)
  qed
qed

lemma error_next:
  assumes "ctl_inv r" "status r = Error"
  shows "status (step r e) = Error \<or> status (step r e) = Connecting \<or> status (step r e) = Stopped"
proof (cases e)
  case EnsureRunning
  with assms show ?thesis by (simp add: ensure_running_def)
next
  case StopBegin
  with assms show ?thesis by (simp add: stop_begin_def Let_def split: option.splits)
next
  case StopEnd
  with assms show ?thesis by (simp add: stop_end_def)
next
  case (TaskStep t inp)
  with error_next_task[OF assms, of t inp] show ?thesis by auto
next
  case AddListener
  with assms show ?thesis using step_ctl_other[of e _ _ _ r] by simp
next
  case (RemoveListener q)
  with assms show ?thesis using step_ctl_other[of e q _ _ r] by simp
next
  case (Drain w a)
  with assms show ?thesis using step_ctl_other[of e _ w a r] by simp
qed

lemma backoff_retry:
  assumes "t < next_task r" "pc (tasks r t) = AwaitSleep n"
  shows "(\<not> stop_event r \<and> \<not> must_cancel (tasks r t) \<longrightarrow>
            status (task_step r t Resume) = Connecting
          \<and> pc (tasks (task_step r t Resume) t) = AwaitConnect)
       \<and> (stop_event r \<or> must_cancel (tasks r t) \<longrightarrow>
            task_done (tasks (task_step r t Resume) t)
          \<and> status (task_step r t Resume) = status r)"
  using assms by (auto simp: task_step_def loop_head_def task_done_def)


text \<open>
  Claim C8 as stated fails: \<open>stopped\<close> is not terminal.  A reader is started, its
  task connects, \<open>stop\<close> is called and ends, and the status is \<open>stopped\<close>; then
  \<open>ensure_running\<close> is called again, the new task runs, and the status is
  \<open>connecting\<close>.
\<close>

theorem stopped_not_terminal:
  "status (run (UartReader None [] 1000)
      [EnsureRunning, TaskStep 0 Resume, StopBegin, TaskStep 0 Resume, StopEnd]) = Stopped
   \<and> status (run (UartReader None [] 1000)
      [EnsureRunning, TaskStep 0 Resume, StopBegin, TaskStep 0 Resume, StopEnd,
       EnsureRunning, TaskStep 1 Resume]) = Connecting"
  by (simp add: run_def UartReader_def ensure_running_def task_alive_def task_step_def
      new_task_def loop_head_def set_pc_def stop_begin_def stop_end_def cancel_def
      task_done_def handle_exn_def)

text \<open>
  Claim C8, as it holds.  The status becomes \<open>stopped\<close> only in \<open>stop\<close>, and
  every \<open>stop\<close> that is followed to its end sets it.  Once the status is \<open>stopped\<close>
  and every task is done or marked by \<open>cancel()\<close>, it stays \<open>stopped\<close> through
  every sequence of operations and runs of tasks without \<open>ensure_running\<close>.  A task
  in its back-off sleep goes on to \<open>connecting\<close> when the sleep is over, unless a
  stop was asked for (the stop event is set or the task is marked): then the task ends
  and leaves the status as it is, for \<open>stop\<close> to set.  And in every state that a new
  reader can reach, a status \<open>error\<close> is followed by \<open>error\<close>, \<open>connecting\<close> or
  \<open>stopped\<close>, whatever comes next.
\<close>

theorem stopped_and_error_transitions:
  "(status (step r e) = Stopped \<longrightarrow> status r = Stopped \<or> e = StopBegin \<or> e = StopEnd)
   \<and> (status r = Stopped \<and> quiet r \<and> EnsureRunning \<notin> set es \<longrightarrow>
        status (run r es) = Stopped)
   \<and> (t < next_task r \<and> pc (tasks r t) = AwaitSleep n \<longrightarrow>
        (\<not> stop_event r \<and> \<not> must_cancel (tasks r t) \<longrightarrow>
            status (task_step r t Resume) = Connecting
          \<and> pc (tasks (task_step r t Resume) t) = AwaitConnect)
      \<and> (stop_event r \<or> must_cancel (tasks r t) \<longrightarrow>
            task_done (tasks (task_step r t Resume) t)
          \<and> status (task_step r t Resume) = status r))
   \<and> (status (run (UartReader env_url url0 max_lines) es') = Error \<longrightarrow>
        status (step (run (UartReader env_url url0 max_lines) es') e') = Error
      \<or> status (step (run (UartReader env_url url0 max_lines) es') e') = Connecting
      \<or> status (step (run (UartReader env_url url0 max_lines) es') e') = Stopped)
   \<and> status (stop_end (stop_begin r)) = Stopped"
proof -
  have a: "status (step r e) = Stopped \<longrightarrow> status r = Stopped \<or> e = StopBegin \<or> e = StopEnd"
    using stopped_only_by_stop[of r e] by blast
  have b: "status r = Stopped \<and> quiet r \<and> EnsureRunning \<notin> set es \<longrightarrow>
        status (run r es) = Stopped"
    using quiet_run[of r es] by blast
  have c: "t < next_task r \<and> pc (tasks r t) = AwaitSleep n \<longrightarrow>
        (\<not> stop_event r \<and> \<not> must_cancel (tasks r t) \<longrightarrow>
            status (task_step r t Resume) = Connecting
          \<and> pc (tasks (task_step r t Resume) t) = AwaitConnect)
      \<and> (stop_event r \<or> must_cancel (tasks r t) \<longrightarrow>
            task_done (tasks (task_step r t Resume) t)
          \<and> status (task_step r t Resume) = status r)"
    using backoff_retry[of t r n] by blast
  let ?r = "run (UartReader env_url url0 max_lines) es'"
  have "ctl_inv ?r" by (intro ctl_inv_run ctl_inv_init)
  then have d: "status ?r = Error \<longrightarrow>
        status (step ?r e') = Error \<or> status (step ?r e') = Connecting
      \<or> status (step ?r e') = Stopped"
    using error_next[of ?r e'] by blast
  have e: "status (stop_end (stop_begin r)) = Stopped"
    by (simp add: stop_begin_def stop_end_def Let_def split: option.splits)
  from a b c d e show ?thesis by blast
qed


text \<open>
  A new reader that is stopped; a reader that was started and stopped; a reader whose
  task sleeps after an error, without and with a \<open>stop\<close> begun.
\<close>

theorem stopped_and_error_transitions_witness:
  "status (step (UartReader None [] 1000) StopBegin) = Stopped
   \<and> status (run (UartReader None [] 1000)
        [EnsureRunning, TaskStep 0 Resume, StopBegin, TaskStep 0 Resume, StopEnd]) = Stopped
   \<and> quiet (run (UartReader None [] 1000)
        [EnsureRunning, TaskStep 0 Resume, StopBegin, TaskStep 0 Resume, StopEnd])
   \<and> EnsureRunning \<notin> set [TaskStep 0 Resume, StopBegin, StopEnd, AddListener]
   \<and> status (run (run (UartReader None [] 1000)
        [EnsureRunning, TaskStep 0 Resume, StopBegin, TaskStep 0 Resume, StopEnd])
        [TaskStep 0 Resume, StopBegin, StopEnd, AddListener]) = Stopped
   \<and> pc (tasks (run (UartReader None [] 1000)
        [EnsureRunning, TaskStep 0 Resume, TaskStep 0 (Raise (Exception [98, 111, 111, 109]))]) 0)
       = AwaitSleep 1
   \<and> status (run (UartReader None [] 1000)
        [EnsureRunning, TaskStep 0 Resume, TaskStep 0 (Raise (Exception [98, 111, 111, 109]))])
       = Error
   \<and> status (task_step (run (UartReader None [] 1000)
        [EnsureRunning, TaskStep 0 Resume, TaskStep 0 (Raise (Exception [98, 111, 111, 109]))])
        0 Resume) = Connecting
   \<and> stop_event (stop_begin (run (UartReader None [] 1000)
        [EnsureRunning, TaskStep 0 Resume, TaskStep 0 (Raise (Exception [98, 111, 111, 109]))]))
   \<and> task_done (tasks (task_step (stop_begin (run (UartReader None [] 1000)
        [EnsureRunning, TaskStep 0 Resume, TaskStep 0 (Raise (Exception [98, 111, 111, 109]))]))
        0 Resume) 0)"
proof -
  define r0 where "r0 = UartReader None [] 1000"
  define r1 where "r1 = run r0 [EnsureRunning, TaskStep 0 Resume, StopBegin, TaskStep 0 Resume, StopEnd]"
  define r2 where "r2 = run r0 [EnsureRunning, TaskStep 0 Resume,
                                 TaskStep 0 (Raise (Exception [98, 111, 111, 109]))]"
  define r3 where "r3 = stop_begin r2"
  note defs = run_def UartReader_def ensure_running_def task_alive_def task_step_def
      new_task_def loop_head_def set_pc_def stop_begin_def stop_end_def cancel_def
      task_done_def handle_exn_def
  have s0: "status (step r0 StopBegin) = Stopped"
    by (simp add: r0_def UartReader_def stop_begin_def)
  have s1: "status r1 = Stopped" and q1: "quiet r1"
    by (simp_all add: r1_def r0_def quiet_def defs)
  have no: "EnsureRunning \<notin> set [TaskStep 0 Resume, StopBegin, StopEnd, AddListener]"
    by simp
  have n2: "0 < next_task r2" and p2: "pc (tasks r2 0) = AwaitSleep 1"
    and e2: "status r2 = Error" and ns2: "\<not> stop_event r2"
    and nm2: "\<not> must_cancel (tasks r2 0)"
    by (simp_all add: r2_def r0_def defs)
  have n3: "0 < next_task r3" and p3: "pc (tasks r3 0) = AwaitSleep 1"
    and st3: "stop_event r3"
    using n2 p2 by (simp_all add: r3_def stop_begin_def Let_def cancel_def split: option.splits)
  from stopped_and_error_transitions[of r1 StopEnd
      "[TaskStep 0 Resume, StopBegin, StopEnd, AddListener]" 0 0 None "[]" 1000 "[]" StopEnd]
    s1 q1 no
  have a: "status (run r1 [TaskStep 0 Resume, StopBegin, StopEnd, AddListener]) = Stopped"
    by blast
  from stopped_and_error_transitions[of r2 StopEnd "[]" 0 1 None "[]" 1000 "[]" StopEnd]
    n2 p2 ns2 nm2
  have b: "status (task_step r2 0 Resume) = Connecting" by blast
  from stopped_and_error_transitions[of r3 StopEnd "[]" 0 1 None "[]" 1000 "[]" StopEnd]
    n3 p3 st3
  have c: "task_done (tasks (task_step r3 0 Resume) 0)" by blast
  from s0 s1 q1 no a p2 e2 b st3 c show ?thesis
    unfolding r3_def r2_def r1_def r0_def by blast
qed

section \<open>The listener registry\<close>

lemma tee_line_listeners [simp]:
  "ui_queues (tee_line r line) = ui_queues r" "next_queue (tee_line r line) = next_queue r"
  by (simp_all add: tee_line_def Let_def)

lemma tee_line_queue:
  "queues (tee_line r line) q =
     (if q \<in> ui_queues r \<and> maxsize (queues r q) \<le> 0
      then (queues r q)\<lparr>items := items (queues r q) @ [line]\<rparr>
      else if q \<in> ui_queues r
      then (case put_nowait (queues r q) line of Inl _ \<Rightarrow> queues r q | Inr q' \<Rightarrow> q')
      else queues r q)"
  by (simp add: tee_line_def Let_def tee_listeners_def put_nowait_def q_full_def)

lemma listeners_ok_step:
  assumes "listeners_ok r"
  shows "listeners_ok (listener_step r op)"
proof (cases op)
  case Add
  with assms show ?thesis
    by (auto simp: listeners_ok_def add_listener_def Let_def Queue_def less_Suc_eq)
next
  case (Remove g)
  with assms show ?thesis by (auto simp: listeners_ok_def remove_listener_def)
next
  case (Push line)
  with assms show ?thesis by (auto simp: listeners_ok_def tee_line_queue)
qed

lemma listeners_ok_steps: "listeners_ok r \<Longrightarrow> listeners_ok (foldl listener_step r ops)"
  by (induction ops arbitrary: r) (simp_all add: listeners_ok_step)

lemma next_queue_step: "next_queue r \<le> next_queue (listener_step r op)"
  by (cases op) (simp_all add: add_listener_def remove_listener_def Let_def)

lemma observed_refines:
  assumes "listeners_ok r" "q < next_queue r"
  shows "items (queues (foldl listener_step r ops) q)
         = items (queues r q) @ observed q (q \<in> ui_queues r) (next_queue r) ops"
  using assms
proof (induction ops arbitrary: r)
  case Nil
  show ?case by simp
next
  case (Cons op ops)
  let ?r = "listener_step r op"
  have ok: "listeners_ok ?r" using Cons.prems(1) by (rule listeners_ok_step)
  have lt: "q < next_queue ?r" using Cons.prems(2) next_queue_step[of r op] by simp
  have IH: "items (queues (foldl listener_step ?r ops) q)
            = items (queues ?r q) @ observed q (q \<in> ui_queues ?r) (next_queue ?r) ops"
    by (rule Cons.IH[OF ok lt])
  show ?case
  proof (cases op)
    case Add
    with Cons.prems(2) have "queues ?r q = queues r q" "(q \<in> ui_queues ?r) = (q \<in> ui_queues r)"
      "next_queue ?r = Suc (next_queue r)" "next_queue r \<noteq> q"
      by (auto simp: add_listener_def Let_def)
    with IH Add show ?thesis by simp
  next
    case (Remove g)
    then have "queues ?r q = queues r q" "(q \<in> ui_queues ?r) = (q \<in> ui_queues r \<and> g \<noteq> q)"
      "next_queue ?r = next_queue r"
      by (auto simp: remove_listener_def)
    with IH Remove show ?thesis by simp
  next
    case (Push line)
    have "items (queues ?r q) = items (queues r q) @ (if q \<in> ui_queues r then [line] else [])"
      using Cons.prems(1) Push by (auto simp: tee_line_queue listeners_ok_def)
    with IH Push show ?thesis by simp
  qed
qed

lemma observed_unregistered: "q < n \<Longrightarrow> observed q False n ops = []"
proof (induction ops arbitrary: n)
  case Nil
  show ?case by simp
next
  case (Cons op ops)
  then show ?case by (cases op) (simp_all add: less_Suc_eq)
qed

lemma observed_pushes: "observed q True n (map Push ls) = ls"
  by (induction ls) simp_all

lemma steps_pushes: "foldl listener_step r (map Push ls) = foldl tee_line r ls"
  by (induction ls arbitrary: r) simp_all

text \<open>
  Claim C5.  Let the registered queues be unbounded queues made by \<open>add_listener\<close>.
  For every sequence of steps (add, remove, push) and every listener \<open>q\<close> that exists
  at the start, the queue of \<open>q\<close> gains exactly the lines that are pushed while \<open>q\<close>
  is registered, in the order of the pushes.  In particular a registered listener gains
  every line of a run of pushes, in order, and a push leaves the queue of a listener
  that is not registered as it is.  The listener made by an \<open>Add\<close> holds, at the end,
  exactly the lines pushed after the \<open>Add\<close> while it is registered, and none of the
  lines pushed before.  After \<open>Remove q\<close> the queue of \<open>q\<close> gains nothing, whatever
  is pushed.
\<close>

theorem listener_delivery:
  assumes "listeners_ok r"
  shows "(q < next_queue r \<longrightarrow>
            items (queues (foldl listener_step r ops) q)
            = items (queues r q) @ observed q (q \<in> ui_queues r) (next_queue r) ops)
       \<and> (q \<in> ui_queues r \<longrightarrow>
            items (queues (foldl tee_line r ls) q) = items (queues r q) @ ls)
       \<and> (q \<notin> ui_queues r \<longrightarrow> queues (tee_line r line) q = queues r q)
       \<and> items (queues (foldl listener_step r (pre @ Add # post))
                  (next_queue (foldl listener_step r pre)))
          = observed (next_queue (foldl listener_step r pre)) True
              (Suc (next_queue (foldl listener_step r pre))) post
       \<and> (q < next_queue (foldl listener_step r pre) \<longrightarrow>
            items (queues (foldl listener_step r (pre @ Remove q # post)) q)
            = items (queues (foldl listener_step r pre) q))"
proof -
  have a: "q < next_queue r \<longrightarrow>
            items (queues (foldl listener_step r ops) q)
            = items (queues r q) @ observed q (q \<in> ui_queues r) (next_queue r) ops"
    using observed_refines[OF assms] by blast
  have b: "items (queues (foldl tee_line r ls) q) = items (queues r q) @ ls"
    if "q \<in> ui_queues r"
  proof -
    from that assms have "q < next_queue r" by (simp add: listeners_ok_def)
    from observed_refines[OF assms this, of "map Push ls"] that show ?thesis
      by (simp add: observed_pushes steps_pushes)
  qed
  have c: "q \<notin> ui_queues r \<longrightarrow> queues (tee_line r line) q = queues r q"
    by (simp add: tee_line_queue)
  let ?r1 = "foldl listener_step r pre"
  have ok1: "listeners_ok ?r1" using assms by (rule listeners_ok_steps)
  have d: "items (queues (foldl listener_step r (pre @ Add # post)) (next_queue ?r1))
          = observed (next_queue ?r1) True (Suc (next_queue ?r1)) post"
  proof -
    let ?r2 = "listener_step ?r1 Add"
    have ok2: "listeners_ok ?r2" using ok1 by (rule listeners_ok_step)
    have f: "next_queue ?r2 = Suc (next_queue ?r1)" "next_queue ?r1 \<in> ui_queues ?r2"
      "items (queues ?r2 (next_queue ?r1)) = []"
      by (simp_all add: add_listener_def Let_def Queue_def)
    have "next_queue ?r1 < next_queue ?r2" using f(1) by simp
    from observed_refines[OF ok2 this, of post] f show ?thesis by simp
  qed
  have e: "items (queues (foldl listener_step r (pre @ Remove q # post)) q)
           = items (queues ?r1 q)"
    if lt: "q < next_queue ?r1"
  proof -
    let ?r2 = "listener_step ?r1 (Remove q)"
    have ok2: "listeners_ok ?r2" using ok1 by (rule listeners_ok_step)
    have f: "next_queue ?r2 = next_queue ?r1" "q \<notin> ui_queues ?r2"
      "queues ?r2 q = queues ?r1 q"
      by (simp_all add: remove_listener_def)
    from lt f(1) have "q < next_queue ?r2" by simp
    from observed_refines[OF ok2 this, of post] f lt show ?thesis
      by (simp add: observed_unregistered)
  qed
  from a b c d e show ?thesis by blast
qed


text \<open>
  A new reader with one listener, number 0; the lines are \<open>a\<close>, \<open>b\<close>, \<open>c\<close>,
  \<open>d\<close>.
\<close>

theorem listener_delivery_witness:
  "listeners_ok (snd (add_listener (UartReader None [] 1000)))
   \<and> 0 < next_queue (snd (add_listener (UartReader None [] 1000)))
   \<and> 0 \<in> ui_queues (snd (add_listener (UartReader None [] 1000)))
   \<and> 5 \<notin> ui_queues (snd (add_listener (UartReader None [] 1000)))
   \<and> items (queues (foldl listener_step (snd (add_listener (UartReader None [] 1000)))
                 [Push [98], Add, Push [99], Remove 0, Push [100]]) 0) = [[98], [99]]
   \<and> items (queues (foldl tee_line (snd (add_listener (UartReader None [] 1000)))
                 [[98], [99]]) 0) = [[98], [99]]
   \<and> queues (tee_line (snd (add_listener (UartReader None [] 1000))) [98]) 5
       = queues (snd (add_listener (UartReader None [] 1000))) 5
   \<and> items (queues (foldl listener_step (snd (add_listener (UartReader None [] 1000)))
                 ([Push [97]] @ Add # [Push [98]])) 1) = [[98]]
   \<and> items (queues (foldl listener_step (snd (add_listener (UartReader None [] 1000)))
                 ([Push [98]] @ Remove 0 # [Push [99]])) 0) = [[98]]"
proof -
  define r where "r = snd (add_listener (UartReader None [] 1000))"
  have ok: "listeners_ok r" and lt: "0 < next_queue r" and n: "next_queue r = 1"
    and reg: "0 \<in> ui_queues r" and unreg: "5 \<notin> ui_queues r"
    and empty: "items (queues r 0) = []"
    by (simp_all add: r_def listeners_ok_def add_listener_def UartReader_def Let_def Queue_def)
  have n1: "next_queue (foldl listener_step r [Push [97]]) = 1"
    and n2: "next_queue (foldl listener_step r [Push [98]]) = 1"
    by (simp_all add: n)
  from listener_delivery[OF ok, of 0 "[Push [98], Add, Push [99], Remove 0, Push [100]]"
      "[[98], [99]]" "[98]" "[Push [97]]" "[Push [98]]"] lt reg
  have a: "items (queues (foldl listener_step r
              [Push [98], Add, Push [99], Remove 0, Push [100]]) 0) = [[98], [99]]"
    and b: "items (queues (foldl tee_line r [[98], [99]]) 0) = [[98], [99]]"
    and d: "items (queues (foldl listener_step r ([Push [97]] @ Add # [Push [98]])) 1) = [[98]]"
    unfolding n1 by (simp_all add: empty n)
  from listener_delivery[OF ok, of 5 "[]" "[]" "[98]" "[]" "[]"] unreg
  have c: "queues (tee_line r [98]) 5 = queues r 5" by blast
  have e0: "items (queues (foldl listener_step r [Push [98]]) 0) = [[98]]"
    using ok reg by (simp add: tee_line_queue listeners_ok_def empty)
  have one: "(0::nat) < 1" by simp
  from listener_delivery[OF ok, of 0 "[]" "[]" "[98]" "[Push [98]]" "[Push [99]]"] one
  have e: "items (queues (foldl listener_step r ([Push [98]] @ Remove 0 # [Push [99]])) 0)
           = [[98]]"
    unfolding n2 e0 by blast
  from ok lt reg unreg a b c d e show ?thesis unfolding r_def by blast
qed

end
